theory Spec2Isabelle
  imports Main "HOL-Library.Word" "HOL-Library.Multiset" "HOL-Library.Sublist"
begin

section \<open>JavaScript values\<close>

text \<open>
  The codecs of \<^verbatim>\<open>backend/algorithms/rle.js\<close> and \<^verbatim>\<open>backend/algorithms/huffman.js\<close>
  work on JavaScript strings and arrays. A string is a sequence of 16-bit code units;
  \<^verbatim>\<open>data[i]\<close> on a string is the string of the one code unit at \<open>i\<close>, and
  \<^verbatim>\<open>data.length\<close> counts code units. The values that occur as array elements, as
  item elements and as node labels are strings, numbers (here: the integers, and
  \<^verbatim>\<open>NaN\<close>), \<^verbatim>\<open>null\<close> and \<^verbatim>\<open>undefined\<close>; reading a property that an object lacks
  gives \<^verbatim>\<open>undefined\<close>.
\<close>

type_synonym code_unit = "16 word"
type_synonym jsstring = "code_unit list"

datatype jsval = JUndefined | JNull | JStr jsstring | JNum int | JNaN

text \<open>The input of a compressor: absent (\<^verbatim>\<open>null\<close>, \<^verbatim>\<open>undefined\<close>), a string or an array.\<close>

datatype js_data = Absent | Str jsstring | Arr "jsval list"

text \<open>
  Every failure of the codecs is a thrown \<^verbatim>\<open>Error\<close>, told apart by its message:
  \<^verbatim>\<open>'Input data is empty'\<close> (\<open>EmptyInputError\<close>),
  \<^verbatim>\<open>'Invalid compressed data format'\<close> (\<open>MalformedPayloadError\<close>),
  \<^verbatim>\<open>'Invalid compressed item type'\<close> (\<open>UnknownItemTypeError\<close>) and
  \<^verbatim>\<open>'Decompression failed: length mismatch'\<close> (\<open>LengthMismatchError\<close>).
  \<open>TypeError\<close> is the error the runtime throws when a property of \<^verbatim>\<open>null\<close> or
  \<^verbatim>\<open>undefined\<close> is read or when \<^verbatim>\<open>undefined\<close> is spread.
\<close>

datatype error =
  EmptyInputError | MalformedPayloadError | UnknownItemTypeError | LengthMismatchError | TypeError

text \<open>An ASCII literal as a JavaScript string.\<close>

definition js :: "string \<Rightarrow> jsstring" where
  "js s = map (\<lambda>c. word_of_nat (of_char c)) s"

text \<open>\<^verbatim>\<open>a === b\<close>: equality of values, except that \<^verbatim>\<open>NaN\<close> equals nothing.\<close>

definition strict_eq :: "jsval \<Rightarrow> jsval \<Rightarrow> bool" where
  "strict_eq a b \<longleftrightarrow> a = b \<and> a \<noteq> JNaN"

text \<open>
  The digits of a number in a radix, most significant first
  (\<^verbatim>\<open>Number.prototype.toString\<close>; decimal for the integers below \<open>10^21\<close>).
\<close>

definition digit_unit :: "nat \<Rightarrow> code_unit" where
  "digit_unit d = word_of_nat (if d < 10 then 48 + d else 87 + d)"

fun digits :: "nat \<Rightarrow> nat \<Rightarrow> jsstring" where
  "digits radix n =
     (if radix < 2 \<or> n < radix then [digit_unit n]
      else digits radix (n div radix) @ [digit_unit (n mod radix)])"

declare digits.simps [simp del]

definition number_to_string :: "nat \<Rightarrow> int \<Rightarrow> jsstring" where
  "number_to_string radix n =
     (if n < 0 then 45 # digits radix (nat (- n)) else digits radix (nat n))"

text \<open>\<^verbatim>\<open>String(v)\<close>, also the property key that \<^verbatim>\<open>obj[v]\<close> uses.\<close>

fun to_string :: "jsval \<Rightarrow> jsstring" where
  "to_string JUndefined = js ''undefined''"
| "to_string JNull = js ''null''"
| "to_string (JStr s) = s"
| "to_string (JNum n) = number_to_string 10 n"
| "to_string JNaN = js ''NaN''"

text \<open>\<^verbatim>\<open>xs.join('')\<close>: \<^verbatim>\<open>null\<close> and \<^verbatim>\<open>undefined\<close> contribute the empty string.\<close>

fun join_elem :: "jsval \<Rightarrow> jsstring" where
  "join_elem JUndefined = []"
| "join_elem JNull = []"
| "join_elem v = to_string v"

definition join :: "jsval list \<Rightarrow> jsstring" where
  "join xs = concat (map join_elem xs)"

text \<open>The elements \<^verbatim>\<open>data[0], data[1], ...\<close> of an input.\<close>

fun elems_of :: "js_data \<Rightarrow> jsval list" where
  "elems_of Absent = []"
| "elems_of (Str s) = map (\<lambda>c. JStr [c]) s"
| "elems_of (Arr xs) = xs"

fun isArray :: "js_data \<Rightarrow> bool" where
  "isArray (Arr xs) = True"
| "isArray _ = False"

text \<open>
  The guard of the three compressors:
  \<^verbatim>\<open>!data || (typeof data === 'string' && data.length === 0) || (Array.isArray(data) && data.length === 0)\<close>.
  The empty string is falsy; an array never is.
\<close>

fun falsy :: "js_data \<Rightarrow> bool" where
  "falsy Absent = True"
| "falsy (Str s) = (s = [])"
| "falsy (Arr xs) = False"

fun input_is_empty :: "js_data \<Rightarrow> bool" where
  "input_is_empty data =
     (falsy data
      \<or> (case data of Str s \<Rightarrow> length s = 0 | _ \<Rightarrow> False)
      \<or> (case data of Arr xs \<Rightarrow> length xs = 0 | _ \<Rightarrow> False))"

section \<open>Run-length encoding (rle.js)\<close>

text \<open>
  The payloads share \<^verbatim>\<open>originalLength\<close> and \<^verbatim>\<open>isArrayData\<close>. A field is \<open>None\<close>
  when the object lacks it.
\<close>

record payload =
  originalLength :: "nat option"
  isArrayData :: "bool option"

text \<open>
  An item of the \<^verbatim>\<open>compressed\<close> list: \<^verbatim>\<open>{type, element, count}\<close> for a run,
  \<^verbatim>\<open>{type, element}\<close> for a single, \<^verbatim>\<open>{type, elements}\<close> for a sequence.
\<close>

record rle_item =
  type_tag :: string
  element :: jsval
  count_field :: "nat option"
  elements :: "jsval list option"

record rle_payload = payload +
  compressed :: "rle_item list option"
  algorithm :: "string option"

definition run_item :: "string \<Rightarrow> jsval \<Rightarrow> nat \<Rightarrow> rle_item" where
  "run_item tag x n = \<lparr>type_tag = tag, element = x, count_field = Some n, elements = None\<rparr>"

definition single_item :: "jsval \<Rightarrow> rle_item" where
  "single_item x = \<lparr>type_tag = ''single'', element = x, count_field = None, elements = None\<rparr>"

definition sequence_item :: "jsval list \<Rightarrow> rle_item" where
  "sequence_item xs =
     \<lparr>type_tag = ''sequence'', element = JUndefined, count_field = None, elements = Some xs\<rparr>"

text \<open>
  The inner loop
  \<^verbatim>\<open>while (i + count < length && data[i + count] === currentElement) count++\<close>.
\<close>

function count_run :: "jsval list \<Rightarrow> nat \<Rightarrow> jsval \<Rightarrow> nat \<Rightarrow> nat" where
  "count_run data i currentElement cnt =
     (if i + cnt < length data \<and> strict_eq (data ! (i + cnt)) currentElement
      then count_run data i currentElement (cnt + 1)
      else cnt)"
  by pat_completeness auto
termination
  by (relation "measure (\<lambda>(data, i, c, cnt). length data - (i + cnt))") auto

declare count_run.simps [simp del]

lemma count_run_ge: "cnt \<le> count_run data i c cnt"
proof (induction data i c cnt rule: count_run.induct)
  case (1 data i c cnt)
  show ?case
  proof (cases "i + cnt < length data \<and> strict_eq (data ! (i + cnt)) c")
    case True
    with 1 have "cnt + 1 \<le> count_run data i c (cnt + 1)" by simp
    with True show ?thesis by (subst count_run.simps) simp
  next
    case False
    then show ?thesis by (subst count_run.simps) auto
  qed
qed

text \<open>The scan of \<^verbatim>\<open>rleCompress\<close>: one item per maximal run.\<close>

function rle_scan :: "jsval list \<Rightarrow> nat \<Rightarrow> rle_item list \<Rightarrow> rle_item list" where
  "rle_scan data i out =
     (if i < length data then
        (let currentElement = data ! i;
             cnt = count_run data i currentElement 1
         in rle_scan data (i + cnt)
              (out @ [if cnt > 1 then run_item ''run'' currentElement cnt
                             else single_item currentElement]))
      else out)"
  by pat_completeness auto
termination
proof (relation "measure (\<lambda>(data, i, out). length data - i)", goal_cases)
  case 1
  show ?case by simp
next
  case (2 data i out x xa)
  have "1 \<le> count_run data i (data ! i) 1" by (rule count_run_ge)
  with 2 show ?case by simp
qed

declare rle_scan.simps [simp del]

definition rleCompress :: "js_data \<Rightarrow> error + rle_payload" where
  "rleCompress data =
     (if input_is_empty data then Inl EmptyInputError
      else Inr \<lparr>originalLength = Some (length (elems_of data)),
                isArrayData = Some (isArray data),
                compressed = Some (rle_scan (elems_of data) 0 []),
                algorithm = None\<rparr>)"

text \<open>\<^verbatim>\<open>for (let i = 0; i < item.count; i++) decompressed.push(item.element)\<close>;
  with \<^verbatim>\<open>count\<close> undefined the test fails at once.\<close>

definition expand_run :: "rle_item \<Rightarrow> jsval list" where
  "expand_run item =
     replicate (case count_field item of None \<Rightarrow> 0 | Some n \<Rightarrow> n) (element item)"

fun rle_expand :: "rle_item list \<Rightarrow> jsval list \<Rightarrow> error + jsval list" where
  "rle_expand [] decompressed = Inr decompressed"
| "rle_expand (item # items) decompressed =
     (if type_tag item = ''run'' then rle_expand items (decompressed @ expand_run item)
      else if type_tag item = ''single'' then rle_expand items (decompressed @ [element item])
      else Inl UnknownItemTypeError)"

text \<open>The length check and the return \<^verbatim>\<open>isArrayData ? decompressed : decompressed.join('')\<close>.\<close>

definition finish :: "('a payload_scheme) \<Rightarrow> jsval list \<Rightarrow> error + js_data" where
  "finish p decompressed =
     (if Some (length decompressed) \<noteq> originalLength p then Inl LengthMismatchError
      else if isArrayData p = Some True then Inr (Arr decompressed)
      else Inr (Str (join decompressed)))"

definition rleDecompress :: "rle_payload option \<Rightarrow> error + js_data" where
  "rleDecompress compressedData =
     (case compressedData of
        None \<Rightarrow> Inl MalformedPayloadError
      | Some p \<Rightarrow>
          (case compressed p of
             None \<Rightarrow> Inl MalformedPayloadError
           | Some items \<Rightarrow>
               (case rle_expand items [] of
                  Inl e \<Rightarrow> Inl e
                | Inr decompressed \<Rightarrow> finish p decompressed)))"

subsection \<open>The adaptive variant\<close>

text \<open>
  Collecting a sequence of singles:
  \<^verbatim>\<open>while (i < length && sequence.length < 255) { ...; if (nextCount >= 2) break; sequence.push(nextElement); i++ }\<close>.
  The result is the index reached and the sequence.
\<close>

function seq_collect :: "jsval list \<Rightarrow> nat \<Rightarrow> jsval list \<Rightarrow> nat \<times> jsval list" where
  "seq_collect data i sequence =
     (if i < length data \<and> length sequence < 255 then
        (let nextElement = data ! i;
             nextCount = count_run data i nextElement 1
         in if nextCount \<ge> 2 then (i, sequence)
            else seq_collect data (i + 1) (sequence @ [nextElement]))
      else (i, sequence))"
  by pat_completeness auto
termination
  by (relation "measure (\<lambda>(data, i, sequence). length data - i)") auto

declare seq_collect.simps [simp del]

lemma seq_collect_ge: "i \<le> fst (seq_collect data i sequence)"
proof (induction data i sequence rule: seq_collect.induct)
  case (1 data i sequence)
  show ?case
  proof (cases "i < length data \<and> length sequence < 255 \<and> \<not> 2 \<le> count_run data i (data ! i) 1")
    case True
    with 1 have "i + 1 \<le> fst (seq_collect data (i + 1) (sequence @ [data ! i]))" by simp
    with True show ?thesis by (subst seq_collect.simps) simp
  next
    case False
    then show ?thesis by (subst seq_collect.simps) (auto simp: Let_def)
  qed
qed

function adv_scan :: "jsval list \<Rightarrow> nat \<Rightarrow> rle_item list \<Rightarrow> rle_item list" where
  "adv_scan data i out =
     (if i < length data then
        (let currentElement = data ! i;
             cnt = count_run data i currentElement 1
         in if cnt \<ge> 4 then
              adv_scan data (i + cnt) (out @ [run_item ''run'' currentElement cnt])
            else if cnt \<ge> 2 then
              adv_scan data (i + cnt) (out @ [run_item ''short_run'' currentElement cnt])
            else
              (case seq_collect data (i + 1) [currentElement] of
                 (i', sequence) \<Rightarrow> adv_scan data i' (out @ [sequence_item sequence])))
      else out)"
  by pat_completeness auto
termination
proof (relation "measure (\<lambda>(data, i, out). length data - i)", goal_cases)
  case 1
  show ?case by simp
next
  case (2 data i out x xa)
  then show ?case by simp
next
  case (3 data i out x xa)
  then show ?case by simp
next
  case (4 data i out x xa xb xc)
  have "i + 1 \<le> fst (seq_collect data (i + 1) [data ! i])" by (rule seq_collect_ge)
  with 4 show ?case by (cases "seq_collect data (Suc i) [data ! i]") auto
qed

declare adv_scan.simps [simp del]

definition rleCompressAdvanced :: "js_data \<Rightarrow> error + rle_payload" where
  "rleCompressAdvanced data =
     (if input_is_empty data then Inl EmptyInputError
      else Inr \<lparr>originalLength = Some (length (elems_of data)),
                isArrayData = Some (isArray data),
                compressed = Some (adv_scan (elems_of data) 0 []),
                algorithm = Some ''advanced_rle''\<rparr>)"

text \<open>
  The \<^verbatim>\<open>switch (item.type)\<close> of \<^verbatim>\<open>rleDecompressAdvanced\<close>;
  \<^verbatim>\<open>decompressed.push(...item.elements)\<close> throws a \<open>TypeError\<close> when the item has no
  \<^verbatim>\<open>elements\<close>.
\<close>

fun adv_expand :: "rle_item list \<Rightarrow> jsval list \<Rightarrow> error + jsval list" where
  "adv_expand [] decompressed = Inr decompressed"
| "adv_expand (item # items) decompressed =
     (if type_tag item = ''run'' \<or> type_tag item = ''short_run'' then
        adv_expand items (decompressed @ expand_run item)
      else if type_tag item = ''sequence'' then
        (case elements item of
           None \<Rightarrow> Inl TypeError
         | Some es \<Rightarrow> adv_expand items (decompressed @ es))
      else if type_tag item = ''single'' then
        adv_expand items (decompressed @ [element item])
      else Inl UnknownItemTypeError)"

definition rleDecompressAdvanced :: "rle_payload option \<Rightarrow> error + js_data" where
  "rleDecompressAdvanced compressedData =
     (case compressedData of
        None \<Rightarrow> Inl MalformedPayloadError
      | Some p \<Rightarrow>
          (case compressed p of
             None \<Rightarrow> Inl MalformedPayloadError
           | Some items \<Rightarrow>
               (case adv_expand items [] of
                  Inl e \<Rightarrow> Inl e
                | Inr decompressed \<Rightarrow> finish p decompressed)))"

subsection \<open>Maximal runs\<close>

text \<open>
  The maximal runs of identical consecutive symbols of a sequence, each with its symbol
  and its length, and the items the two encoders are specified to emit for them.
\<close>

function maximal_runs :: "jsval list \<Rightarrow> (jsval \<times> nat) list" where
  "maximal_runs [] = []"
| "maximal_runs (x # xs) =
     (x, Suc (length (takeWhile (\<lambda>y. strict_eq y x) xs)))
       # maximal_runs (dropWhile (\<lambda>y. strict_eq y x) xs)"
  by pat_completeness auto
termination
  by (relation "measure length") (auto simp: length_dropWhile_le less_Suc_eq_le)

text \<open>The symbols a run stands for.\<close>

definition run_elems :: "jsval \<times> nat \<Rightarrow> jsval list" where
  "run_elems r = replicate (snd r) (fst r)"

definition basic_item :: "jsval \<times> nat \<Rightarrow> rle_item" where
  "basic_item r = (if snd r > 1 then run_item ''run'' (fst r) (snd r) else single_item (fst r))"

text \<open>
  The classification of the adaptive encoder as the specification words it: a run of
  length at least 4 is a Run, one of length 2 or 3 a ShortRun, and a run of length 1
  starts a Sequence that takes up the following symbols as long as they do not start a
  run of length 2 or more, up to 255 symbols.
\<close>

function classify :: "(jsval \<times> nat) list \<Rightarrow> rle_item list" where
  "classify [] = []"
| "classify ((x, n) # rs) =
     (if n \<ge> 4 then run_item ''run'' x n # classify rs
      else if n \<ge> 2 then run_item ''short_run'' x n # classify rs
      else (let singles = take 254 (takeWhile (\<lambda>r. snd r < 2) rs)
            in sequence_item (x # map fst singles) # classify (drop (length singles) rs)))"
  by pat_completeness auto
termination
  by (relation "measure length") auto

declare classify.simps(2) [simp del]

section \<open>Huffman coding (huffman.js)\<close>

subsection \<open>Strings and numbers\<close>

text \<open>
  \<^verbatim>\<open>for (const char of data)\<close> on a string yields its code points: a high surrogate
  followed by a low surrogate is one two-unit string, every other code unit is a string
  of its own.
\<close>

definition is_high_surrogate :: "code_unit \<Rightarrow> bool" where
  "is_high_surrogate c \<longleftrightarrow> 0xD800 \<le> c \<and> c \<le> 0xDBFF"

definition is_low_surrogate :: "code_unit \<Rightarrow> bool" where
  "is_low_surrogate c \<longleftrightarrow> 0xDC00 \<le> c \<and> c \<le> 0xDFFF"

fun code_points :: "jsstring \<Rightarrow> jsstring list" where
  "code_points [] = []"
| "code_points [c] = [[c]]"
| "code_points (c # d # cs) =
     (if is_high_surrogate c \<and> is_low_surrogate d then [c, d] # code_points cs
      else [c] # code_points (d # cs))"

text \<open>The values that \<^verbatim>\<open>for (const x of data)\<close> yields.\<close>

fun symbols_of :: "js_data \<Rightarrow> jsval list" where
  "symbols_of Absent = []"
| "symbols_of (Str s) = map JStr (code_points s)"
| "symbols_of (Arr xs) = xs"

definition padStart :: "nat \<Rightarrow> code_unit \<Rightarrow> jsstring \<Rightarrow> jsstring" where
  "padStart n c s = replicate (n - length s) c @ s"

definition padEnd :: "nat \<Rightarrow> code_unit \<Rightarrow> jsstring \<Rightarrow> jsstring" where
  "padEnd n c s = s @ replicate (n - length s) c"

text \<open>
  \<^verbatim>\<open>parseInt(string, radix)\<close>: leading white space is dropped, then a sign, then with
  no radix (or radix 16) a prefix \<^verbatim>\<open>0x\<close>; the longest run of digits of the radix is the
  value, and \<^verbatim>\<open>NaN\<close> when there is none. The radix is \<open>None\<close> when the argument is left
  out. (The value is the exact integer; JavaScript rounds it to a double beyond \<open>2^53\<close>.)
\<close>

definition is_white_space :: "code_unit \<Rightarrow> bool" where
  "is_white_space c \<longleftrightarrow>
     c \<in> {0x09, 0x0A, 0x0B, 0x0C, 0x0D, 0x20, 0xA0, 0x1680, 0x2028, 0x2029, 0x202F, 0x205F,
          0x3000, 0xFEFF}
     \<or> (0x2000 \<le> c \<and> c \<le> 0x200A)"

definition digit_value :: "code_unit \<Rightarrow> nat" where
  "digit_value c =
     (if 0x30 \<le> c \<and> c \<le> 0x39 then unat c - 48
      else if 0x61 \<le> c \<and> c \<le> 0x7A then unat c - 87
      else if 0x41 \<le> c \<and> c \<le> 0x5A then unat c - 55
      else 36)"

definition parseInt :: "jsstring \<Rightarrow> nat option \<Rightarrow> jsval" where
  "parseInt inputString radix =
     (let S = dropWhile is_white_space inputString;
          sign = (if S \<noteq> [] \<and> hd S = 0x2D then - 1 else 1 :: int);
          S1 = (if S \<noteq> [] \<and> (hd S = 0x2B \<or> hd S = 0x2D) then tl S else S);
          R0 = (case radix of None \<Rightarrow> 0 | Some r \<Rightarrow> r)
      in if R0 \<noteq> 0 \<and> (R0 < 2 \<or> R0 > 36) then JNaN
         else
           (let hasPrefix = ((R0 = 0 \<or> R0 = 16)
                  \<and> (take 2 S1 = [0x30, 0x78] \<or> take 2 S1 = [0x30, 0x58]));
                R = (if hasPrefix then 16 else if R0 = 0 then 10 else R0);
                S2 = (if hasPrefix then drop 2 S1 else S1);
                Z = takeWhile (\<lambda>c. digit_value c < R) S2
            in if Z = [] then JNaN
               else JNum (sign * int (foldl (\<lambda>a c. a * R + digit_value c) 0 Z))))"

text \<open>
  \<^verbatim>\<open>byte.toString(2)\<close>: the binary digits of a number; a string is returned as it is,
  and \<^verbatim>\<open>null\<close> and \<^verbatim>\<open>undefined\<close> have no such method.
\<close>

fun toString_radix :: "nat \<Rightarrow> jsval \<Rightarrow> error + jsstring" where
  "toString_radix radix (JNum n) = Inr (number_to_string radix n)"
| "toString_radix radix (JStr s) = Inr s"
| "toString_radix radix JNaN = Inr (js ''NaN'')"
| "toString_radix radix JNull = Inl TypeError"
| "toString_radix radix JUndefined = Inl TypeError"

subsection \<open>HuffmanNode and MinHeap\<close>

text \<open>
  \<^verbatim>\<open>new HuffmanNode(char, freq, left = null, right = null)\<close>; a child that is
  \<^verbatim>\<open>null\<close> is \<open>None\<close>.
\<close>

datatype node = HuffmanNode (char: jsval) (freq: nat) (left: "node option") (right: "node option")

definition isLeaf :: "node \<Rightarrow> bool" where
  "isLeaf n \<longleftrightarrow> left n = None \<and> right n = None"

text \<open>
  The heap is the array \<^verbatim>\<open>this.heap\<close>; every method returns the array it leaves.
  \<^verbatim>\<open>getParentIndex\<close> is \<^verbatim>\<open>Math.floor((index - 1) / 2)\<close>, called for a positive index
  only.
\<close>

definition getParentIndex :: "nat \<Rightarrow> nat" where
  "getParentIndex index = (index - 1) div 2"

definition getLeftChildIndex :: "nat \<Rightarrow> nat" where
  "getLeftChildIndex index = 2 * index + 1"

definition getRightChildIndex :: "nat \<Rightarrow> nat" where
  "getRightChildIndex index = 2 * index + 2"

definition swap :: "node list \<Rightarrow> nat \<Rightarrow> nat \<Rightarrow> node list" where
  "swap heap index1 index2 = heap[index1 := heap ! index2, index2 := heap ! index1]"

function heapifyUp :: "node list \<Rightarrow> nat \<Rightarrow> node list" where
  "heapifyUp heap index =
     (if index > 0 then
        (let parentIndex = getParentIndex index
         in if freq (heap ! parentIndex) \<le> freq (heap ! index) then heap
            else heapifyUp (swap heap parentIndex index) parentIndex)
      else heap)"
  by pat_completeness auto
termination
  by (relation "measure (\<lambda>(heap, index). index)") (auto simp: getParentIndex_def)

declare heapifyUp.simps [simp del]

definition insert_heap :: "node list \<Rightarrow> node \<Rightarrow> node list" where
  "insert_heap heap n = heapifyUp (heap @ [n]) (length (heap @ [n]) - 1)"

function heapifyDown :: "node list \<Rightarrow> nat \<Rightarrow> node list" where
  "heapifyDown heap index =
     (if getLeftChildIndex index < length heap then
        (let leftChildIndex = getLeftChildIndex index;
             rightChildIndex = getRightChildIndex index;
             smallestIndex =
               (if rightChildIndex < length heap
                   \<and> freq (heap ! rightChildIndex) < freq (heap ! leftChildIndex)
                then rightChildIndex else leftChildIndex)
         in if freq (heap ! index) \<le> freq (heap ! smallestIndex) then heap
            else heapifyDown (swap heap index smallestIndex) smallestIndex)
      else heap)"
  by pat_completeness auto
termination
  by (relation "measure (\<lambda>(heap, index). length heap - index)")
    (auto simp: getLeftChildIndex_def getRightChildIndex_def swap_def)

declare heapifyDown.simps [simp del]

text \<open>\<^verbatim>\<open>extractMin\<close>: the node returned (\<open>None\<close> for \<^verbatim>\<open>null\<close>) and the heap left.\<close>

definition extractMin :: "node list \<Rightarrow> node option \<times> node list" where
  "extractMin heap =
     (if length heap = 0 then (None, heap)
      else if length heap = 1 then (Some (last heap), butlast heap)
      else (Some (heap ! 0), heapifyDown ((butlast heap)[0 := last heap]) 0))"

subsection \<open>Frequency table, tree and codes\<close>

text \<open>
  The frequency table is an object; its own properties are kept in the order of their
  creation. \<^verbatim>\<open>freqTable[k] = (freqTable[k] || 0) + 1\<close>, for a key \<open>k\<close> of a symbol: a
  code point of a string, or the decimal numeral of a number of an array (no such key
  names a property that \<^verbatim>\<open>Object.prototype\<close> hands down).
\<close>

fun freq_incr :: "jsstring \<Rightarrow> (jsstring \<times> nat) list \<Rightarrow> (jsstring \<times> nat) list" where
  "freq_incr k [] = [(k, 1)]"
| "freq_incr k ((k', c) # ft) =
     (if k = k' then (k', (if c = 0 then 0 else c) + 1) # ft else (k', c) # freq_incr k ft)"

definition buildFrequencyTable :: "js_data \<Rightarrow> (jsstring \<times> nat) list" where
  "buildFrequencyTable data = foldl (\<lambda>ft v. freq_incr (to_string v) ft) [] (symbols_of data)"

text \<open>
  \<^verbatim>\<open>Object.entries\<close> lists the properties whose keys are array indices (the decimal
  numerals of the integers below \<open>2^32 - 1\<close>) first, in ascending numeric order, and the
  others after them in the order of their creation.
\<close>

definition parse_decimal :: "jsstring \<Rightarrow> nat" where
  "parse_decimal k = foldl (\<lambda>a c. a * 10 + digit_value c) 0 k"

definition is_array_index :: "jsstring \<Rightarrow> bool" where
  "is_array_index k \<longleftrightarrow>
     k = digits 10 (parse_decimal k) \<and> int (parse_decimal k) < 4294967295"

definition Object_entries :: "(jsstring \<times> nat) list \<Rightarrow> (jsstring \<times> nat) list" where
  "Object_entries obj =
     sort_key (\<lambda>e. parse_decimal (fst e)) (filter (\<lambda>e. is_array_index (fst e)) obj)
       @ filter (\<lambda>e. \<not> is_array_index (fst e)) obj"

text \<open>
  The merge loop \<^verbatim>\<open>while (heap.size() > 1)\<close>. Reading \<^verbatim>\<open>.freq\<close> of a \<^verbatim>\<open>null\<close>
  that \<^verbatim>\<open>extractMin\<close> returned would throw a \<open>TypeError\<close>.
\<close>

lemma length_swap [simp]: "length (swap heap i j) = length heap"
  by (simp add: swap_def)

lemma length_heapifyUp [simp]: "length (heapifyUp heap index) = length heap"
proof (induction heap index rule: heapifyUp.induct)
  case (1 heap index)
  show ?case
  proof (cases "index > 0 \<and> \<not> freq (heap ! getParentIndex index) \<le> freq (heap ! index)")
    case True
    with 1 have "length (heapifyUp (swap heap (getParentIndex index) index) (getParentIndex index))
        = length heap"
      by simp
    with True show ?thesis by (subst heapifyUp.simps) (simp add: Let_def)
  next
    case False
    then show ?thesis by (subst heapifyUp.simps) (auto simp: Let_def)
  qed
qed

lemma length_heapifyDown [simp]: "length (heapifyDown heap index) = length heap"
proof (induction heap index rule: heapifyDown.induct)
  case (1 heap index)
  define s where "s = (if getRightChildIndex index < length heap
      \<and> freq (heap ! getRightChildIndex index) < freq (heap ! getLeftChildIndex index)
    then getRightChildIndex index else getLeftChildIndex index)"
  show ?case
  proof (cases "getLeftChildIndex index < length heap \<and> \<not> freq (heap ! index) \<le> freq (heap ! s)")
    case True
    with 1 [OF _ refl refl s_def] have "length (heapifyDown (swap heap index s) s) = length heap"
      by simp
    with True show ?thesis by (subst heapifyDown.simps) (simp add: Let_def s_def)
  next
    case False
    then show ?thesis by (subst heapifyDown.simps) (auto simp: Let_def s_def)
  qed
qed

lemma length_insert_heap [simp]: "length (insert_heap heap n) = Suc (length heap)"
  by (simp add: insert_heap_def)

lemma length_extractMin [simp]: "length (snd (extractMin heap)) = length heap - 1"
  by (simp add: extractMin_def)

lemma extractMin_length: "extractMin heap = (m, heap') \<Longrightarrow> length heap' = length heap - 1"
  by (metis length_extractMin snd_conv)

function build_loop :: "node list \<Rightarrow> error + node list" where
  "build_loop heap =
     (if length heap > 1 then
        (case extractMin heap of
           (None, heap1) \<Rightarrow> Inl TypeError
         | (Some l, heap1) \<Rightarrow>
             (case extractMin heap1 of
                (None, heap2) \<Rightarrow> Inl TypeError
              | (Some r, heap2) \<Rightarrow>
                  build_loop
                    (insert_heap heap2 (HuffmanNode JNull (freq l + freq r) (Some l) (Some r)))))
      else Inr heap)"
  by pat_completeness auto
termination
  by (relation "measure length") (auto dest!: extractMin_length [OF sym])

declare build_loop.simps [simp del]

definition buildHuffmanTree :: "(jsstring \<times> nat) list \<Rightarrow> error + node option" where
  "buildHuffmanTree freqTable =
     (let heap = foldl (\<lambda>h e. insert_heap h (HuffmanNode (JStr (fst e)) (snd e) None None)) []
                   (Object_entries freqTable)
      in if length heap = 1 then
           (case fst (extractMin heap) of
              None \<Rightarrow> Inl TypeError
            | Some n \<Rightarrow> Inr (Some (HuffmanNode JNull (freq n) (Some n) None)))
         else
           (case build_loop heap of
              Inl e \<Rightarrow> Inl e
            | Inr heap' \<Rightarrow> Inr (fst (extractMin heap'))))"

text \<open>
  The code table is the plain object \<^verbatim>\<open>codes\<close>; \<^verbatim>\<open>codes[node.char] = code\<close> stores
  under the key \<^verbatim>\<open>String(node.char)\<close>. The key \<^verbatim>\<open>__proto__\<close> is the accessor that
  \<^verbatim>\<open>Object.prototype\<close> gives every plain object: assigning a string to it sets no
  property, and reading it gives the prototype, which a string concatenation renders as
  \<^verbatim>\<open>[object Object]\<close>. \<^verbatim>\<open>traverse\<close> returns the table it leaves.
\<close>

definition set_property :: "(jsstring \<rightharpoonup> jsstring) \<Rightarrow> jsstring \<Rightarrow> jsstring \<Rightarrow> (jsstring \<rightharpoonup> jsstring)" where
  "set_property obj k v = (if k = js ''__proto__'' then obj else obj(k \<mapsto> v))"

definition zero_bit :: code_unit where
  "zero_bit = 0x30"

definition one_bit :: code_unit where
  "one_bit = 0x31"

function traverse :: "node \<Rightarrow> jsstring \<Rightarrow> (jsstring \<rightharpoonup> jsstring) \<Rightarrow> (jsstring \<rightharpoonup> jsstring)" where
  "traverse n code codes =
     (if isLeaf n then set_property codes (to_string (char n)) code
      else
        (let codes1 = (case left n of None \<Rightarrow> codes | Some l \<Rightarrow> traverse l (code @ [zero_bit]) codes)
         in (case right n of None \<Rightarrow> codes1 | Some r \<Rightarrow> traverse r (code @ [one_bit]) codes1)))"
  by pat_completeness auto
termination
proof (relation "measure (\<lambda>(n, code, codes). size n)", goal_cases)
  case 1
  show ?case by simp
next
  case (2 n code codes l)
  then show ?case by (cases n) simp
next
  case (3 n code codes codes1 r)
  then show ?case by (cases n) simp
qed

declare traverse.simps [simp del]

definition buildCodes :: "node \<Rightarrow> (jsstring \<rightharpoonup> jsstring)" where
  "buildCodes root =
     (if isLeaf root then set_property Map.empty (to_string (char root)) [zero_bit]
      else traverse root [] Map.empty)"

subsection \<open>Serialized trees\<close>

text \<open>
  \<^verbatim>\<open>{type: 'leaf', char, freq}\<close> or \<^verbatim>\<open>{type: 'internal', freq, left, right}\<close>; a
  property that the object lacks reads as \<^verbatim>\<open>undefined\<close> (\<open>JUndefined\<close>, or \<open>None\<close> for
  a child).
\<close>

datatype serialized =
  SNode (stype: string) (schar: jsval) (sfreq: nat)
    (sleft: "serialized option") (sright: "serialized option")

function serializeTree :: "node option \<Rightarrow> serialized option" where
  "serializeTree None = None"
| "serializeTree (Some n) =
     (if isLeaf n then Some (SNode ''leaf'' (char n) (freq n) None None)
      else Some (SNode ''internal'' JUndefined (freq n)
                   (serializeTree (left n)) (serializeTree (right n))))"
  by pat_completeness auto
termination
proof (relation "measure (size_option size)", goal_cases)
  case 1
  show ?case by simp
next
  case (2 n)
  then show ?case by (cases n; cases "left n") simp_all
next
  case (3 n)
  then show ?case by (cases n; cases "right n") simp_all
qed

function deserializeTree :: "serialized option \<Rightarrow> node option" where
  "deserializeTree None = None"
| "deserializeTree (Some s) =
     (if stype s = ''leaf'' then Some (HuffmanNode (schar s) (sfreq s) None None)
      else Some (HuffmanNode JNull (sfreq s)
                   (deserializeTree (sleft s)) (deserializeTree (sright s))))"
  by pat_completeness auto
termination
proof (relation "measure (size_option size)", goal_cases)
  case 1
  show ?case by simp
next
  case (2 s)
  then show ?case by (cases s; cases "sleft s") simp_all
next
  case (3 s)
  then show ?case by (cases s; cases "sright s") simp_all
qed

subsection \<open>huffmanCompress and huffmanDecompress\<close>

record huffman_payload = payload +
  encodedData :: "jsval list option"
  tree :: "serialized option"
  paddingBits :: "nat option"

text \<open>
  \<^verbatim>\<open>encodedBits += codes[x]\<close>; a key that \<^verbatim>\<open>codes\<close> lacks appends \<^verbatim>\<open>"undefined"\<close>.
  (A lacking key that names a method of \<^verbatim>\<open>Object.prototype\<close>, such as
  \<^verbatim>\<open>toString\<close>, would append the text of the method; the keys here are those of the
  symbols of the input, which all have codes.)
\<close>

definition code_of :: "(jsstring \<rightharpoonup> jsstring) \<Rightarrow> jsval \<Rightarrow> jsstring" where
  "code_of codes v =
     (if to_string v = js ''__proto__'' then js ''[object Object]''
      else case codes (to_string v) of None \<Rightarrow> js ''undefined'' | Some c \<Rightarrow> c)"

text \<open>
  \<^verbatim>\<open>for (let i = 0; i < encodedBits.length; i += 8)
    encodedBytes.push(parseInt(encodedBits.slice(i, i + 8).padEnd(8, '0'), 2))\<close>.
\<close>

function pack_bits :: "jsstring \<Rightarrow> nat \<Rightarrow> jsval list \<Rightarrow> jsval list" where
  "pack_bits encodedBits i encodedBytes =
     (if i < length encodedBits then
        pack_bits encodedBits (i + 8)
          (encodedBytes @ [parseInt (padEnd 8 zero_bit (take 8 (drop i encodedBits))) (Some 2)])
      else encodedBytes)"
  by pat_completeness auto
termination
  by (relation "measure (\<lambda>(encodedBits, i, encodedBytes). length encodedBits - i)") auto

declare pack_bits.simps [simp del]

definition huffmanCompress :: "js_data \<Rightarrow> error + huffman_payload" where
  "huffmanCompress data =
     (if input_is_empty data then Inl EmptyInputError
      else
        (let freqTable = buildFrequencyTable data
         in case buildHuffmanTree freqTable of
              Inl e \<Rightarrow> Inl e
            | Inr None \<Rightarrow> Inl TypeError
            | Inr (Some root) \<Rightarrow>
                (let codes = buildCodes root;
                     encodedBits = concat (map (code_of codes) (symbols_of data))
                 in Inr \<lparr>originalLength = Some (length (elems_of data)),
                          isArrayData = Some (isArray data),
                          encodedData = Some (pack_bits encodedBits 0 []),
                          tree = serializeTree (Some root),
                          paddingBits = Some ((8 - length encodedBits mod 8) mod 8)\<rparr>)))"

text \<open>\<^verbatim>\<open>bitString += byte.toString(2).padStart(8, '0')\<close> for every byte.\<close>

fun bits_of :: "jsval list \<Rightarrow> jsstring \<Rightarrow> error + jsstring" where
  "bits_of [] bitString = Inr bitString"
| "bits_of (byte # bytes) bitString =
     (case toString_radix 2 byte of
        Inl e \<Rightarrow> Inl e
      | Inr s \<Rightarrow> bits_of bytes (bitString @ padStart 8 zero_bit s))"

text \<open>
  The decoding loop \<^verbatim>\<open>for (const bit of bitString)\<close>, over the code points of the bit
  string. \<^verbatim>\<open>current.isLeaf()\<close> on a child that is \<^verbatim>\<open>null\<close> throws a \<open>TypeError\<close>.
\<close>

fun decode_loop :: "node \<Rightarrow> node \<Rightarrow> jsstring list \<Rightarrow> jsval list \<Rightarrow> error + jsval list" where
  "decode_loop root current [] decoded = Inr decoded"
| "decode_loop root current (b # bits) decoded =
     (if isLeaf root then decode_loop root current bits (decoded @ [char root])
      else
        (case (if b = [zero_bit] then left current else right current) of
           None \<Rightarrow> Inl TypeError
         | Some next \<Rightarrow>
             if isLeaf next then decode_loop root root bits (decoded @ [char next])
             else decode_loop root next bits decoded))"

definition huffmanDecompress :: "huffman_payload option \<Rightarrow> error + js_data" where
  "huffmanDecompress compressedData =
     (case compressedData of
        None \<Rightarrow> Inl MalformedPayloadError
      | Some p \<Rightarrow>
          (case (encodedData p, tree p) of
             (Some bytes, Some t) \<Rightarrow>
               (case deserializeTree (Some t) of
                  None \<Rightarrow> Inl TypeError
                | Some root \<Rightarrow>
                    (case bits_of bytes [] of
                       Inl e \<Rightarrow> Inl e
                     | Inr bitString0 \<Rightarrow>
                         (let bitString =
                                (case paddingBits p of
                                   None \<Rightarrow> bitString0
                                 | Some k \<Rightarrow>
                                     if k > 0 then take (length bitString0 - k) bitString0
                                     else bitString0)
                          in case decode_loop root root (code_points bitString) [] of
                               Inl e \<Rightarrow> Inl e
                             | Inr decoded \<Rightarrow>
                                 if isArrayData p = Some True
                                 then Inr (Arr (map (\<lambda>c. parseInt (to_string c) None) decoded))
                                 else Inr (Str (join decoded)))))
           | _ \<Rightarrow> Inl MalformedPayloadError))"

subsection \<open>Trees, leaves and paths\<close>

text \<open>The leaves of a tree with the bits of the path from the root to each.\<close>

fun rel_paths :: "node \<Rightarrow> (jsval \<times> jsstring) list" where
  "rel_paths (HuffmanNode c f None None) = [(c, [])]"
| "rel_paths (HuffmanNode c f (Some l) None) = map (\<lambda>e. (fst e, zero_bit # snd e)) (rel_paths l)"
| "rel_paths (HuffmanNode c f None (Some r)) = map (\<lambda>e. (fst e, one_bit # snd e)) (rel_paths r)"
| "rel_paths (HuffmanNode c f (Some l) (Some r)) =
     map (\<lambda>e. (fst e, zero_bit # snd e)) (rel_paths l)
       @ map (\<lambda>e. (fst e, one_bit # snd e)) (rel_paths r)"

text \<open>Every internal node has exactly two children and the sum of their frequencies.\<close>

fun two_children_sum :: "node \<Rightarrow> bool" where
  "two_children_sum (HuffmanNode c f None None) = True"
| "two_children_sum (HuffmanNode c f (Some l) (Some r)) =
     (f = freq l + freq r \<and> two_children_sum l \<and> two_children_sum r)"
| "two_children_sum (HuffmanNode c f (Some l) None) = False"
| "two_children_sum (HuffmanNode c f None (Some r)) = False"

text \<open>Every internal node is labelled \<^verbatim>\<open>null\<close>.\<close>

fun null_internal :: "node \<Rightarrow> bool" where
  "null_internal (HuffmanNode c f None None) = True"
| "null_internal (HuffmanNode c f l r) =
     (c = JNull \<and> (case l of None \<Rightarrow> True | Some n \<Rightarrow> null_internal n)
              \<and> (case r of None \<Rightarrow> True | Some n \<Rightarrow> null_internal n))"

definition leaf_node :: "jsstring \<times> nat \<Rightarrow> node" where
  "leaf_node e = HuffmanNode (JStr (fst e)) (snd e) None None"

definition merge_nodes :: "node \<Rightarrow> node \<Rightarrow> node" where
  "merge_nodes l r = HuffmanNode JNull (freq l + freq r) (Some l) (Some r)"

definition leaf_mset :: "node \<Rightarrow> jsval multiset" where
  "leaf_mset t = mset (map fst (rel_paths t))"

definition forest_ok :: "node list \<Rightarrow> bool" where
  "forest_ok heap \<longleftrightarrow> (\<forall>t \<in> set heap. two_children_sum t \<and> null_internal t)"

definition forest_leaves :: "node list \<Rightarrow> jsval multiset" where
  "forest_leaves heap = (\<Sum>t \<in># mset heap. leaf_mset t)"

definition put_code :: "jsstring \<Rightarrow> jsval \<times> jsstring \<Rightarrow> (jsstring \<rightharpoonup> jsstring) \<Rightarrow> (jsstring \<rightharpoonup> jsstring)" where
  "put_code code e m = set_property m (to_string (fst e)) (code @ snd e)"

text \<open>Strings of the bits \<^verbatim>\<open>0\<close> and \<^verbatim>\<open>1\<close>, and the number such a string denotes.\<close>

definition binary :: "jsstring \<Rightarrow> bool" where
  "binary s \<longleftrightarrow> set s \<subseteq> {zero_bit, one_bit}"

definition bin_val :: "jsstring \<Rightarrow> nat" where
  "bin_val s = foldl (\<lambda>a c. a * 2 + digit_value c) 0 s"

text \<open>
  The inputs the codecs are specified for: a string, or an array of bytes (the numbers
  from 0 to 255).
\<close>

definition is_byte :: "jsval \<Rightarrow> bool" where
  "is_byte v = (case v of JNum n \<Rightarrow> 0 \<le> n \<and> n < 256 | _ \<Rightarrow> False)"

fun text_or_bytes :: "js_data \<Rightarrow> bool" where
  "text_or_bytes Absent = False"
| "text_or_bytes (Str s) = True"
| "text_or_bytes (Arr xs) = list_all is_byte xs"

subsection \<open>Example payloads\<close>

text \<open>The items \<open>[Run{a,4}, Run{b,3}, Run{c,2}]\<close> of the input \<^verbatim>\<open>"aaaabbbcc"\<close>.\<close>

definition example_payload :: rle_payload where
  "example_payload =
     \<lparr>originalLength = Some 9, isArrayData = Some False,
      compressed = Some [run_item ''run'' (JStr (js ''a'')) 4,
                         run_item ''run'' (JStr (js ''b'')) 3,
                         run_item ''run'' (JStr (js ''c'')) 2],
      algorithm = None\<rparr>"

text \<open>A payload with an item tagged \<^verbatim>\<open>"bogus"\<close>.\<close>

definition bogus_payload :: rle_payload where
  "bogus_payload =
     \<lparr>originalLength = Some 3, isArrayData = Some False,
      compressed = Some [run_item ''run'' (JStr (js ''a'')) 2,
                         run_item ''bogus'' (JStr (js ''b'')) 1],
      algorithm = None\<rparr>"

text \<open>A payload of the basic codec's \<^verbatim>\<open>single\<close> item, handed to the adaptive decoder.\<close>

definition single_payload :: rle_payload where
  "single_payload =
     \<lparr>originalLength = Some 1, isArrayData = Some False,
      compressed = Some [single_item (JStr (js ''a''))],
      algorithm = Some ''advanced_rle''\<rparr>"

text \<open>The 256 byte values in order: 255 distinct symbols and a 256th.\<close>

definition all_bytes :: js_data where
  "all_bytes = Arr (map (\<lambda>n. JNum (int n)) [0..<256])"

text \<open>A frequency table of three symbols, its tree, and a table of one symbol.\<close>

definition example_table :: "(jsstring \<times> nat) list" where
  "example_table = [(js ''a'', 5), (js ''b'', 2), (js ''c'', 1)]"

definition example_tree :: node where
  "example_tree =
     HuffmanNode JNull 8
       (Some (HuffmanNode JNull 3
                (Some (HuffmanNode (JStr (js ''c'')) 1 None None))
                (Some (HuffmanNode (JStr (js ''b'')) 2 None None))))
       (Some (HuffmanNode (JStr (js ''a'')) 5 None None))"

definition single_table :: "(jsstring \<times> nat) list" where
  "single_table = [(js ''a'', 3)]"

text \<open>
  The payload of \<^verbatim>\<open>huffmanCompress("ab")\<close>; the same with another
  \<^verbatim>\<open>originalLength\<close>; a payload of eight symbols without \<^verbatim>\<open>paddingBits\<close> and
  \<^verbatim>\<open>isArrayData\<close>; and the first payload without \<^verbatim>\<open>encodedData\<close>, and without
  \<^verbatim>\<open>tree\<close>.
\<close>

definition ab_tree :: serialized where
  "ab_tree =
     SNode ''internal'' JUndefined 2
       (Some (SNode ''leaf'' (JStr (js ''a'')) 1 None None))
       (Some (SNode ''leaf'' (JStr (js ''b'')) 1 None None))"

definition ab_payload :: huffman_payload where
  "ab_payload =
     \<lparr>originalLength = Some 2, isArrayData = Some False,
      encodedData = Some [JNum 64], tree = Some ab_tree, paddingBits = Some 6\<rparr>"

definition mismatch_payload :: huffman_payload where
  "mismatch_payload = ab_payload\<lparr>originalLength := Some 7\<rparr>"

definition unflagged_payload :: huffman_payload where
  "unflagged_payload =
     \<lparr>originalLength = Some 8, isArrayData = None,
      encodedData = Some [JNum 64], tree = Some ab_tree, paddingBits = None\<rparr>"

definition no_bytes_payload :: huffman_payload where
  "no_bytes_payload = ab_payload\<lparr>encodedData := None\<rparr>"

definition no_tree_payload :: huffman_payload where
  "no_tree_payload = ab_payload\<lparr>tree := None\<rparr>"

text \<open>A string and an array of bytes.\<close>

definition abcabc :: js_data where
  "abcabc = Str (js ''abcabc'')"

definition some_bytes :: js_data where
  "some_bytes = Arr [JNum 10, JNum 200, JNum 10, JNum 0, JNum 255]"

section \<open>Properties of the run-length codecs\<close>

lemma strict_eq_same: "strict_eq y x \<Longrightarrow> y = x"
  by (simp add: strict_eq_def)

lemma count_run_takeWhile:
  "i + c \<le> length data \<Longrightarrow>
   count_run data i x c = c + length (takeWhile (\<lambda>y. strict_eq y x) (drop (i + c) data))"
proof (induction data i x c rule: count_run.induct)
  case (1 data i x c)
  show ?case
  proof (cases "i + c < length data")
    case True
    then have d: "drop (i + c) data = data ! (i + c) # drop (i + (c + 1)) data"
      by (simp add: Cons_nth_drop_Suc)
    show ?thesis
    proof (cases "strict_eq (data ! (i + c)) x")
      case True
      with \<open>i + c < length data\<close> 1 show ?thesis
        by (subst count_run.simps) (simp add: d)
    next
      case False
      then show ?thesis by (subst count_run.simps) (simp add: d)
    qed
  next
    case False
    with 1 show ?thesis by (subst count_run.simps) simp
  qed
qed

lemma maximal_runs_drop:
  assumes "i < length data"
  shows "maximal_runs (drop i data) =
         (data ! i, count_run data i (data ! i) 1)
           # maximal_runs (drop (i + count_run data i (data ! i) 1) data)"
proof -
  let ?P = "\<lambda>y. strict_eq y (data ! i)"
  let ?ys = "drop (Suc i) data"
  have d: "drop i data = data ! i # ?ys"
    using assms by (simp add: Cons_nth_drop_Suc)
  have c: "count_run data i (data ! i) (Suc 0) = Suc (length (takeWhile ?P ?ys))"
    using assms count_run_takeWhile [of i 1 data "data ! i"] by simp
  have "dropWhile ?P ?ys = drop (length (takeWhile ?P ?ys)) ?ys"
    by (rule dropWhile_eq_drop)
  also have "\<dots> = drop (i + count_run data i (data ! i) 1) data"
    by (simp add: c add.commute)
  finally show ?thesis by (simp add: d c)
qed

lemma rle_scan_runs:
  "rle_scan data i out = out @ map basic_item (maximal_runs (drop i data))"
proof (induction data i out rule: rle_scan.induct)
  case (1 data i out)
  show ?case
  proof (cases "i < length data")
    case True
    then show ?thesis
      using 1 [OF True refl refl]
      by (subst rle_scan.simps) (simp add: maximal_runs_drop Let_def basic_item_def cong: if_cong)
  next
    case False
    then show ?thesis by (subst rle_scan.simps) simp
  qed
qed

lemma takeWhile_strict_eq: "takeWhile (\<lambda>y. strict_eq y x) xs = replicate (length (takeWhile (\<lambda>y. strict_eq y x) xs)) x"
proof -
  have "\<forall>y \<in> set (takeWhile (\<lambda>y. strict_eq y x) xs). y = x"
    by (auto dest: set_takeWhileD strict_eq_same)
  then show ?thesis by (simp add: replicate_length_same)
qed

lemma concat_maximal_runs: "concat (map run_elems (maximal_runs xs)) = xs"
proof (induction xs rule: maximal_runs.induct)
  case 1
  show ?case by simp
next
  case (2 x xs)
  have "replicate (length (takeWhile (\<lambda>y. strict_eq y x) xs)) x @ dropWhile (\<lambda>y. strict_eq y x) xs = xs"
    using takeWhile_strict_eq [of x xs] takeWhile_dropWhile_id [of "\<lambda>y. strict_eq y x" xs] by simp
  with 2 show ?case by (simp add: run_elems_def)
qed

lemma maximal_runs_pos: "r \<in> set (maximal_runs xs) \<Longrightarrow> 0 < snd r"
  by (induction xs rule: maximal_runs.induct) auto

lemma rle_expand_basic:
  "\<forall>r \<in> set rs. 0 < snd r \<Longrightarrow>
   rle_expand (map basic_item rs) d = Inr (d @ concat (map run_elems rs))"
proof (induction rs arbitrary: d)
  case Nil
  show ?case by simp
next
  case (Cons r rs)
  then have "snd r = 1 \<or> snd r > 1" by auto
  with Cons show ?case
    by (auto simp: basic_item_def run_item_def single_item_def expand_run_def run_elems_def)
qed

lemma adv_expand_basic:
  "\<forall>r \<in> set rs. 0 < snd r \<Longrightarrow>
   adv_expand (map basic_item rs) d = Inr (d @ concat (map run_elems rs))"
proof (induction rs arbitrary: d)
  case Nil
  show ?case by simp
next
  case (Cons r rs)
  then have "snd r = 1 \<or> snd r > 1" by auto
  with Cons show ?case
    by (auto simp: basic_item_def run_item_def single_item_def expand_run_def run_elems_def)
qed

lemma join_units: "join (map (\<lambda>c. JStr [c]) s) = s"
  by (induction s) (simp_all add: join_def)

lemma finish_elems:
  "\<not> input_is_empty data \<Longrightarrow>
   finish \<lparr>originalLength = Some (length (elems_of data)), isArrayData = Some (isArray data), \<dots> = m\<rparr> (elems_of data) = Inr data"
  by (cases data) (simp_all add: finish_def join_units)

lemma maximal_runs_single:
  "\<not> 2 \<le> Suc (length (takeWhile (\<lambda>y. strict_eq y x) xs)) \<Longrightarrow>
   maximal_runs (x # xs) = (x, 1) # maximal_runs xs"
proof -
  assume "\<not> 2 \<le> Suc (length (takeWhile (\<lambda>y. strict_eq y x) xs))"
  then have "length (takeWhile (\<lambda>y. strict_eq y x) xs) = 0" by arith
  then have t: "takeWhile (\<lambda>y. strict_eq y x) xs = []" by simp
  have "dropWhile (\<lambda>y. strict_eq y x) xs = xs"
    using takeWhile_dropWhile_id [of "\<lambda>y. strict_eq y x" xs] by (simp add: t)
  then show ?thesis by (simp add: t)
qed

lemma runs_drop_singles:
  "maximal_runs (drop (length (take k (takeWhile (\<lambda>r. snd r < 2) (maximal_runs xs)))) xs)
   = drop (length (take k (takeWhile (\<lambda>r. snd r < 2) (maximal_runs xs)))) (maximal_runs xs)"
proof (induction xs arbitrary: k)
  case Nil
  show ?case by simp
next
  case (Cons x xs)
  show ?case
  proof (cases k)
    case 0
    then show ?thesis by simp
  next
    case (Suc k')
    show ?thesis
    proof (cases "2 \<le> Suc (length (takeWhile (\<lambda>y. strict_eq y x) xs))")
      case True
      then have "takeWhile (\<lambda>y. strict_eq y x) xs \<noteq> []" by auto
      then show ?thesis by simp
    next
      case False
      then have "maximal_runs (x # xs) = (x, 1) # maximal_runs xs"
        by (rule maximal_runs_single)
      then show ?thesis using Cons [of k'] Suc by simp
    qed
  qed
qed

lemma seq_collect_runs:
  "i \<le> length data \<Longrightarrow>
   seq_collect data i s =
     (i + length (take (255 - length s) (takeWhile (\<lambda>r. snd r < 2) (maximal_runs (drop i data)))),
      s @ map fst (take (255 - length s) (takeWhile (\<lambda>r. snd r < 2) (maximal_runs (drop i data)))))"
proof (induction data i s rule: seq_collect.induct)
  case (1 data i s)
  show ?case
  proof (cases "i < length data \<and> length s < 255")
    case False
    with 1 show ?thesis by (subst seq_collect.simps) auto
  next
    case True
    then have il: "i < length data" and sl: "length s < 255" by simp_all
    define c where "c = count_run data i (data ! i) (Suc 0)"
    have runs: "maximal_runs (drop i data) = (data ! i, c) # maximal_runs (drop (i + c) data)"
      unfolding c_def using il maximal_runs_drop [of i data] by simp
    have cpos: "1 \<le> c" unfolding c_def using count_run_ge [of "Suc 0"] by simp
    show ?thesis
    proof (cases "2 \<le> c")
      case True
      with il sl show ?thesis
        by (subst seq_collect.simps) (simp add: runs c_def [symmetric] Let_def)
    next
      case False
      with cpos have c1: "c = 1" by simp
      have IH: "seq_collect data (i + 1) (s @ [data ! i]) =
        (i + 1 + length (take (255 - length (s @ [data ! i])) (takeWhile (\<lambda>r. snd r < 2) (maximal_runs (drop (i + 1) data)))),
         (s @ [data ! i]) @ map fst (take (255 - length (s @ [data ! i])) (takeWhile (\<lambda>r. snd r < 2) (maximal_runs (drop (i + 1) data)))))"
        using 1(1) [OF True refl refl] False il unfolding c_def by simp
      have t: "take (255 - length s) ((data ! i, Suc 0) # ys) = (data ! i, Suc 0) # take (254 - length s) ys" for ys
        using sl by (simp add: take_Cons')
      have "seq_collect data i s = seq_collect data (i + 1) (s @ [data ! i])"
        using il sl False by (subst seq_collect.simps) (simp add: c_def [symmetric] Let_def)
      then show ?thesis
        using IH by (simp add: runs c1 t)
    qed
  qed
qed

lemma adv_scan_runs:
  "adv_scan data i out = out @ classify (maximal_runs (drop i data))"
proof (induction data i out rule: adv_scan.induct)
  case (1 data i out)
  show ?case
  proof (cases "i < length data")
    case False
    then show ?thesis by (subst adv_scan.simps) simp
  next
    case True
    define c where "c = count_run data i (data ! i) (Suc 0)"
    have runs: "maximal_runs (drop i data) = (data ! i, c) # maximal_runs (drop (i + c) data)"
      unfolding c_def using True maximal_runs_drop [of i data] by simp
    have cpos: "1 \<le> c" unfolding c_def using count_run_ge [of "Suc 0"] by simp
    consider (long) "4 \<le> c" | (short) "\<not> 4 \<le> c" "2 \<le> c" | (single) "\<not> 4 \<le> c" "\<not> 2 \<le> c"
      by blast
    then show ?thesis
    proof cases
      case long
      have "adv_scan data (i + c) (out @ [run_item ''run'' (data ! i) c])
            = (out @ [run_item ''run'' (data ! i) c]) @ classify (maximal_runs (drop (i + c) data))"
        using 1(1) [OF True refl refl] long unfolding c_def by simp
      moreover have "adv_scan data i out = adv_scan data (i + c) (out @ [run_item ''run'' (data ! i) c])"
        using True long by (subst adv_scan.simps) (simp add: c_def [symmetric] Let_def)
      ultimately show ?thesis using long by (simp add: runs classify.simps(2))
    next
      case short
      have "adv_scan data (i + c) (out @ [run_item ''short_run'' (data ! i) c])
            = (out @ [run_item ''short_run'' (data ! i) c]) @ classify (maximal_runs (drop (i + c) data))"
        using 1(2) [OF True refl refl] short unfolding c_def by simp
      moreover have "adv_scan data i out = adv_scan data (i + c) (out @ [run_item ''short_run'' (data ! i) c])"
        using True short by (subst adv_scan.simps) (simp add: c_def [symmetric] Let_def)
      ultimately show ?thesis using short by (simp add: runs classify.simps(2))
    next
      case single
      with cpos have c1: "c = 1" by simp
      define rs where "rs = maximal_runs (drop (i + 1) data)"
      define pre where "pre = take 254 (takeWhile (\<lambda>r. snd r < 2) rs)"
      have sc: "seq_collect data (i + 1) [data ! i] = (i + 1 + length pre, data ! i # map fst pre)"
        using True seq_collect_runs [of "i + 1" data "[data ! i]"]
        by (simp add: pre_def rs_def)
      have after: "maximal_runs (drop (i + 1 + length pre) data) = drop (length pre) rs"
        using runs_drop_singles [of 254 "drop (i + 1) data"]
        by (simp add: pre_def rs_def add.commute)
      have "adv_scan data (i + 1 + length pre) (out @ [sequence_item (data ! i # map fst pre)])
            = (out @ [sequence_item (data ! i # map fst pre)]) @ classify (maximal_runs (drop (i + 1 + length pre) data))"
        using 1(3) [OF True refl refl _ _ sc [symmetric]] single unfolding c_def by simp
      moreover have "adv_scan data i out
            = adv_scan data (i + 1 + length pre) (out @ [sequence_item (data ! i # map fst pre)])"
        using True single sc by (subst adv_scan.simps) (simp add: c_def [symmetric] Let_def)
      moreover have "classify (maximal_runs (drop i data))
            = sequence_item (data ! i # map fst pre) # classify (drop (length pre) rs)"
      proof -
        have "maximal_runs (drop i data) = (data ! i, 1) # rs"
          using runs c1 by (simp add: rs_def)
        then show ?thesis
          by (simp add: classify.simps(2) Let_def pre_def)
      qed
      ultimately show ?thesis
        using after by simp
    qed
  qed
qed

lemma singles_elems:
  "\<forall>r \<in> set rs. 0 < snd r \<Longrightarrow>
   concat (map run_elems (take k (takeWhile (\<lambda>r. snd r < 2) rs)))
   = map fst (take k (takeWhile (\<lambda>r. snd r < 2) rs))"
proof (induction rs arbitrary: k)
  case Nil
  show ?case by simp
next
  case (Cons r rs)
  show ?case
  proof (cases k)
    case 0
    then show ?thesis by simp
  next
    case (Suc k')
    have one: "run_elems r = [fst r]" if "snd r < 2"
    proof -
      from Cons.prems that have "snd r = Suc 0" by auto
      then show ?thesis by (simp add: run_elems_def)
    qed
    have rest: "\<forall>r \<in> set rs. 0 < snd r" using Cons.prems by simp
    show ?thesis using Cons.IH [OF rest, of k'] Suc one by simp
  qed
qed

lemma take_takeWhile_prefix:
  "take k (takeWhile P rs) = take (length (take k (takeWhile P rs))) rs"
proof -
  have "take k (takeWhile P rs) = take k (take (length (takeWhile P rs)) rs)"
    by (metis takeWhile_eq_take)
  also have "\<dots> = take (min k (length (takeWhile P rs))) rs"
    by simp
  finally have e: "take k (takeWhile P rs) = take (min k (length (takeWhile P rs))) rs" .
  show ?thesis unfolding length_take by (simp add: e min.commute)
qed

lemma adv_expand_classify:
  "\<forall>r \<in> set rs. 0 < snd r \<Longrightarrow>
   adv_expand (classify rs) d = Inr (d @ concat (map run_elems rs))"
proof (induction rs arbitrary: d rule: classify.induct)
  case 1
  show ?case by simp
next
  case (2 x n rs)
  consider (long) "4 \<le> n" | (short) "\<not> 4 \<le> n" "2 \<le> n" | (single) "\<not> 4 \<le> n" "\<not> 2 \<le> n"
    by blast
  then show ?case
  proof cases
    case long
    with 2(1) [OF long] 2(4) show ?thesis
      by (simp add: classify.simps(2) run_item_def expand_run_def run_elems_def)
  next
    case short
    with 2(2) [OF short] 2(4) show ?thesis
      by (simp add: classify.simps(2) run_item_def expand_run_def run_elems_def)
  next
    case single
    define pre where "pre = take 254 (takeWhile (\<lambda>r. snd r < 2) rs)"
    have n1: "n = 1" using single 2(4) by simp
    have rest: "\<forall>r \<in> set (drop (length pre) rs). 0 < snd r"
      using 2(4) by (auto dest: in_set_dropD)
    have IH: "adv_expand (classify (drop (length pre) rs)) d' = Inr (d' @ concat (map run_elems (drop (length pre) rs)))" for d'
      using 2(3) [OF single pre_def rest] .
    have p: "pre = take (length pre) rs"
      unfolding pre_def by (rule take_takeWhile_prefix)
    have "concat (map run_elems pre) = map fst pre"
      unfolding pre_def using 2(4) by (intro singles_elems) simp
    then have "map fst pre @ concat (map run_elems (drop (length pre) rs)) = concat (map run_elems (take (length pre) rs @ drop (length pre) rs))"
      using p by (metis concat_append map_append)
    then have "map fst pre @ concat (map run_elems (drop (length pre) rs)) = concat (map run_elems rs)"
      by simp
    moreover have "run_elems (x, n) = [x]"
      by (simp add: n1 run_elems_def)
    ultimately show ?thesis
      using single IH
      by (simp add: classify.simps(2) pre_def [symmetric] Let_def sequence_item_def)
  qed
qed

lemma rle_roundtrip:
  assumes "\<not> input_is_empty data"
  shows "\<exists>p. rleCompress data = Inr p \<and> rleDecompress (Some p) = Inr data"
  using assms
  by (simp add: rleCompress_def rleDecompress_def rle_scan_runs rle_expand_basic
      maximal_runs_pos concat_maximal_runs finish_elems)

lemma adv_roundtrip:
  assumes "\<not> input_is_empty data"
  shows "\<exists>p. rleCompressAdvanced data = Inr p \<and> rleDecompressAdvanced (Some p) = Inr data"
  using assms
  by (simp add: rleCompressAdvanced_def rleDecompressAdvanced_def adv_scan_runs
      adv_expand_classify maximal_runs_pos concat_maximal_runs finish_elems)

lemma rle_expand_unknown:
  "\<exists>item \<in> set items. type_tag item \<noteq> ''run'' \<and> type_tag item \<noteq> ''single'' \<Longrightarrow>
   rle_expand items d = Inl UnknownItemTypeError"
  by (induction items arbitrary: d) auto

lemma adv_expand_unknown:
  "\<exists>item \<in> set items. type_tag item \<notin> {''run'', ''short_run'', ''sequence'', ''single''} \<Longrightarrow>
   \<forall>item \<in> set items. type_tag item = ''sequence'' \<longrightarrow> elements item \<noteq> None \<Longrightarrow>
   adv_expand items d = Inl UnknownItemTypeError"
proof (induction items arbitrary: d)
  case Nil
  then show ?case by simp
next
  case (Cons a items)
  show ?case
  proof (cases "type_tag a \<in> {''run'', ''short_run'', ''sequence'', ''single''}")
    case False
    then show ?thesis by simp
  next
    case True
    with Cons.prems(1)
    have bad: "\<exists>item \<in> set items. type_tag item \<notin> {''run'', ''short_run'', ''sequence'', ''single''}"
      by auto
    have ok: "\<forall>item \<in> set items. type_tag item = ''sequence'' \<longrightarrow> elements item \<noteq> None"
      using Cons.prems(2) by simp
    have IH: "adv_expand items d' = Inl UnknownItemTypeError" for d'
      using Cons.IH [OF bad ok] .
    from Cons.prems(2) have "type_tag a = ''sequence'' \<longrightarrow> elements a \<noteq> None" by simp
    with True show ?thesis by (auto simp: IH)
  qed
qed

lemma maximal_runs_distinct:
  "distinct xs \<Longrightarrow> maximal_runs xs = map (\<lambda>x. (x, 1)) xs"
proof (induction xs)
  case Nil
  show ?case by simp
next
  case (Cons x xs)
  have "takeWhile (\<lambda>y. strict_eq y x) xs = []"
  proof (cases xs)
    case Nil
    then show ?thesis by simp
  next
    case (Cons y ys)
    with Cons.prems have "y \<noteq> x" by auto
    with Cons show ?thesis by (auto dest: strict_eq_same)
  qed
  then have "maximal_runs (x # xs) = (x, 1) # maximal_runs xs"
    by (intro maximal_runs_single) simp
  with Cons show ?case by simp
qed

lemma classify_singles:
  "xs \<noteq> [] \<Longrightarrow>
   classify (map (\<lambda>x. (x, 1)) xs)
   = sequence_item (take 255 xs) # classify (map (\<lambda>x. (x, 1)) (drop 255 xs))"
proof (cases xs)
  case Nil
  assume "xs \<noteq> []"
  with Nil show ?thesis by simp
next
  case (Cons x ys)
  have tw: "takeWhile (\<lambda>r. snd r < 2) (map (\<lambda>x. (x, Suc 0)) ys) = map (\<lambda>x. (x, Suc 0)) ys"
    by (induction ys) simp_all
  have dr: "drop (min (length ys) 254) ys = drop 254 ys"
    by (cases "length ys \<le> 254") (simp_all add: min_def)
  show ?thesis
    using Cons by (simp add: classify.simps(2) Let_def tw dr take_map drop_map comp_def take_Cons' drop_Cons')
qed

section \<open>Claims about the run-length codecs\<close>

text \<open>
  C9: \<^verbatim>\<open>rleCompress("aaaabbbcc")\<close> produces exactly the items
  \<open>[Run{a,4}, Run{b,3}, Run{c,2}]\<close>, and \<^verbatim>\<open>rleDecompress\<close> of that payload returns
  \<^verbatim>\<open>"aaaabbbcc"\<close>.
\<close>

theorem rle_example:
  "rleCompress (Str (js ''aaaabbbcc'')) = Inr example_payload
   \<and> rleDecompress (Some example_payload) = Inr (Str (js ''aaaabbbcc''))"
  by code_simp

text \<open>
  C10: the adaptive decoder recognises the basic codec's \<^verbatim>\<open>single\<close> tag and expands
  it to one symbol, and for every non-empty input \<open>I\<close>,
  \<^verbatim>\<open>rleDecompressAdvanced(rleCompress(I))\<close> is \<open>I\<close>.
\<close>

theorem advanced_decodes_basic:
  "adv_expand (single_item x # items) decompressed = adv_expand items (decompressed @ [x])
   \<and> (\<not> input_is_empty data \<longrightarrow>
        (\<exists>p. rleCompress data = Inr p \<and> rleDecompressAdvanced (Some p) = Inr data))"
proof -
  have "adv_expand (single_item x # items) decompressed = adv_expand items (decompressed @ [x])"
    by (simp add: single_item_def)
  moreover have "\<exists>p. rleCompress data = Inr p \<and> rleDecompressAdvanced (Some p) = Inr data"
    if "\<not> input_is_empty data"
    using that
    by (simp add: rleCompress_def rleDecompressAdvanced_def rle_scan_runs adv_expand_basic
        maximal_runs_pos concat_maximal_runs finish_elems)
  ultimately show ?thesis by blast
qed

theorem advanced_decodes_basic_witness:
  "\<not> input_is_empty (Str (js ''abbc''))
   \<and> (\<exists>p. rleCompress (Str (js ''abbc'')) = Inr p
          \<and> rleDecompressAdvanced (Some p) = Inr (Str (js ''abbc'')))"
  using advanced_decodes_basic [of undefined "[]" "[]" "Str (js ''abbc'')"]
  by (simp add: js_def)

text \<open>
  C7, as the code has it: \<^verbatim>\<open>rleDecompress\<close> fails with \<open>UnknownItemTypeError\<close> on every
  payload with an item tagged other than \<^verbatim>\<open>run\<close> or \<^verbatim>\<open>single\<close>;
  \<^verbatim>\<open>rleDecompressAdvanced\<close> fails with it on every payload with an item tagged other
  than \<^verbatim>\<open>run\<close>, \<^verbatim>\<open>short_run\<close>, \<^verbatim>\<open>sequence\<close> or \<^verbatim>\<open>single\<close>, when the items
  tagged \<^verbatim>\<open>sequence\<close> carry their \<^verbatim>\<open>elements\<close>.
\<close>

theorem unknown_tag_rejected:
  "(compressed p = Some items \<longrightarrow>
      (\<exists>item \<in> set items. type_tag item \<notin> {''run'', ''single''}) \<longrightarrow>
      rleDecompress (Some p) = Inl UnknownItemTypeError)
   \<and> (compressed p = Some items \<longrightarrow>
      (\<exists>item \<in> set items. type_tag item \<notin> {''run'', ''short_run'', ''sequence'', ''single''}) \<longrightarrow>
      (\<forall>item \<in> set items. type_tag item = ''sequence'' \<longrightarrow> elements item \<noteq> None) \<longrightarrow>
      rleDecompressAdvanced (Some p) = Inl UnknownItemTypeError)"
  using rle_expand_unknown [of items "[]"] adv_expand_unknown [of items "[]"]
  by (auto simp: rleDecompress_def rleDecompressAdvanced_def)

theorem unknown_tag_rejected_witness:
  "compressed bogus_payload = Some [run_item ''run'' (JStr (js ''a'')) 2, run_item ''bogus'' (JStr (js ''b'')) 1]
   \<and> type_tag (run_item ''bogus'' (JStr (js ''b'')) 1) = ''bogus''
   \<and> rleDecompress (Some bogus_payload) = Inl UnknownItemTypeError
   \<and> rleDecompressAdvanced (Some bogus_payload) = Inl UnknownItemTypeError"
  using unknown_tag_rejected [of bogus_payload "[run_item ''run'' (JStr (js ''a'')) 2, run_item ''bogus'' (JStr (js ''b'')) 1]"]
  by (simp add: bogus_payload_def run_item_def)

text \<open>
  C7 as stated fails for the adaptive decoder: \<^verbatim>\<open>single\<close> is none of the adaptive
  codec's item variants (Run, ShortRun, Sequence), yet a payload with such an item decodes.
\<close>

theorem single_tag_accepted:
  "compressed single_payload = Some [single_item (JStr (js ''a''))]
   \<and> type_tag (single_item (JStr (js ''a''))) \<notin> {''run'', ''short_run'', ''sequence''}
   \<and> rleDecompressAdvanced (Some single_payload) = Inr (Str (js ''a''))"
  by (simp add: single_payload_def single_item_def rleDecompressAdvanced_def finish_def join_def)

text \<open>
  C5: the items of \<^verbatim>\<open>rleCompressAdvanced\<close> are the classification of the maximal runs
  of the input (length at least 4: Run; 2 or 3: ShortRun; 1: a Sequence of up to 255
  symbols that start no run of length 2 or more). So 255 distinct symbols followed by a
  256th distinct symbol give exactly two Sequence items, of 255 symbols and of 1.
\<close>

theorem adaptive_classification:
  "(\<not> input_is_empty data \<longrightarrow>
      (\<exists>p. rleCompressAdvanced data = Inr p
         \<and> compressed p = Some (classify (maximal_runs (elems_of data)))))
   \<and> (length (elems_of data) = 256 \<longrightarrow> distinct (elems_of data) \<longrightarrow>
      (\<exists>p. rleCompressAdvanced data = Inr p
         \<and> compressed p = Some [sequence_item (take 255 (elems_of data)),
                                 sequence_item (drop 255 (elems_of data))]))"
proof -
  have general: "\<exists>p. rleCompressAdvanced data = Inr p
      \<and> compressed p = Some (classify (maximal_runs (elems_of data)))"
    if "\<not> input_is_empty data"
    using that by (simp add: rleCompressAdvanced_def adv_scan_runs)
  have "\<exists>p. rleCompressAdvanced data = Inr p
      \<and> compressed p = Some [sequence_item (take 255 (elems_of data)),
                              sequence_item (drop 255 (elems_of data))]"
    if len: "length (elems_of data) = 256" and dist: "distinct (elems_of data)"
  proof -
    define xs where "xs = elems_of data"
    have ne: "\<not> input_is_empty data"
      using len by (cases data) auto
    have "length (drop 255 xs) = 1" using len by (simp add: xs_def)
    then obtain y where y: "drop 255 xs = [y]"
      by (cases "drop 255 xs") simp_all
    have "xs \<noteq> []" using len by (auto simp: xs_def)
    then have "classify (map (\<lambda>x. (x, 1)) xs)
        = sequence_item (take 255 xs) # classify (map (\<lambda>x. (x, 1)) (drop 255 xs))"
      by (rule classify_singles)
    also have "classify (map (\<lambda>x. (x, 1)) (drop 255 xs)) = [sequence_item (drop 255 xs)]"
      by (simp add: y classify.simps(2))
    finally have "classify (maximal_runs xs) = [sequence_item (take 255 xs), sequence_item (drop 255 xs)]"
      using dist by (simp add: maximal_runs_distinct xs_def)
    with general [OF ne] show ?thesis by (simp add: xs_def)
  qed
  with general show ?thesis by blast
qed

theorem adaptive_classification_witness:
  "\<not> input_is_empty all_bytes
   \<and> length (elems_of all_bytes) = 256
   \<and> distinct (elems_of all_bytes)
   \<and> (\<exists>p. rleCompressAdvanced all_bytes = Inr p
        \<and> compressed p = Some (classify (maximal_runs (elems_of all_bytes)))
        \<and> compressed p = Some [sequence_item (map (\<lambda>n. JNum (int n)) [0..<255]),
                                sequence_item [JNum 255]])"
proof -
  have d: "distinct (elems_of all_bytes)"
    by (simp add: all_bytes_def distinct_map inj_on_def)
  have l: "length (elems_of all_bytes) = 256"
    by (simp add: all_bytes_def)
  have n: "\<not> input_is_empty all_bytes"
    by (simp add: all_bytes_def)
  have "drop 255 (elems_of all_bytes) = [JNum 255]"
    by (simp add: all_bytes_def drop_map)
  moreover have "take 255 (elems_of all_bytes) = map (\<lambda>n. JNum (int n)) [0..<255]"
    by (simp add: all_bytes_def take_map)
  ultimately show ?thesis
    using adaptive_classification [of all_bytes] d l n by auto
qed

section \<open>Properties of the Huffman codec\<close>

lemma mset_swap_heap:
  "i < length heap \<Longrightarrow> j < length heap \<Longrightarrow> mset (swap heap i j) = mset heap"
  unfolding swap_def by (rule mset_swap)

lemma mset_heapifyUp:
  "index < length heap \<Longrightarrow> mset (heapifyUp heap index) = mset heap"
proof (induction heap index rule: heapifyUp.induct)
  case (1 heap index)
  show ?case
  proof (cases "index > 0 \<and> \<not> freq (heap ! getParentIndex index) \<le> freq (heap ! index)")
    case True
    have p: "getParentIndex index < length heap"
      using 1(2) by (simp add: getParentIndex_def)
    have "mset (heapifyUp (swap heap (getParentIndex index) index) (getParentIndex index))
        = mset (swap heap (getParentIndex index) index)"
      using 1(1) [OF _ refl] True p by simp
    with True p 1(2) show ?thesis
      by (subst heapifyUp.simps) (simp add: Let_def mset_swap_heap)
  next
    case False
    then show ?thesis by (subst heapifyUp.simps) (auto simp: Let_def)
  qed
qed

lemma mset_heapifyDown: "mset (heapifyDown heap index) = mset heap"
proof (induction heap index rule: heapifyDown.induct)
  case (1 heap index)
  define s where "s = (if getRightChildIndex index < length heap
      \<and> freq (heap ! getRightChildIndex index) < freq (heap ! getLeftChildIndex index)
    then getRightChildIndex index else getLeftChildIndex index)"
  show ?case
  proof (cases "getLeftChildIndex index < length heap \<and> \<not> freq (heap ! index) \<le> freq (heap ! s)")
    case True
    then have i: "index < length heap" and sl: "s < length heap"
      by (auto simp: getLeftChildIndex_def s_def)
    have "mset (heapifyDown (swap heap index s) s) = mset (swap heap index s)"
      using 1 [OF _ refl refl s_def] True by simp
    with True i sl show ?thesis
      by (subst heapifyDown.simps) (simp add: Let_def s_def [symmetric] mset_swap_heap)
  next
    case False
    then show ?thesis by (subst heapifyDown.simps) (auto simp: Let_def s_def)
  qed
qed

lemma mset_insert_heap: "mset (insert_heap heap n) = add_mset n (mset heap)"
  by (simp add: insert_heap_def mset_heapifyUp)

lemma extractMin_Nil: "extractMin [] = (None, [])"
  by (simp add: extractMin_def)

lemma extractMin_single: "extractMin [t] = (Some t, [])"
  by (simp add: extractMin_def)

lemma extractMin_Some:
  assumes "heap \<noteq> []"
  shows "\<exists>m heap'. extractMin heap = (Some m, heap') \<and> mset heap = add_mset m (mset heap')"
proof (cases heap)
  case Nil
  with assms show ?thesis by simp
next
  case (Cons x xs)
  show ?thesis
  proof (cases xs rule: rev_cases)
    case Nil
    with Cons show ?thesis by (simp add: extractMin_def)
  next
    case (snoc ys z)
    have "extractMin heap = (Some x, heapifyDown (z # ys) 0)"
      using Cons snoc by (simp add: extractMin_def butlast_append)
    moreover have "mset heap = add_mset x (mset (heapifyDown (z # ys) 0))"
      using Cons snoc by (simp add: mset_heapifyDown)
    ultimately show ?thesis by blast
  qed
qed

lemma rel_paths_isLeaf: "isLeaf n \<Longrightarrow> rel_paths n = [(char n, [])]"
  by (cases n) (simp add: isLeaf_def)

lemma leaf_mset_merge [simp]: "leaf_mset (merge_nodes l r) = leaf_mset l + leaf_mset r"
  by (simp add: leaf_mset_def merge_nodes_def comp_def)

lemma leaf_mset_leaf [simp]: "leaf_mset (leaf_node e) = {#JStr (fst e)#}"
  by (simp add: leaf_mset_def leaf_node_def)

lemma build_loop_result:
  "heap \<noteq> [] \<Longrightarrow> forest_ok heap \<Longrightarrow>
   \<exists>t. build_loop heap = Inr [t] \<and> two_children_sum t \<and> null_internal t
        \<and> leaf_mset t = forest_leaves heap"
proof (induction heap rule: build_loop.induct)
  case (1 heap)
  show ?case
  proof (cases "length heap > 1")
    case False
    with 1(2) obtain t where t: "heap = [t]"
      by (cases heap) auto
    then show ?thesis
      using 1(3) by (subst build_loop.simps) (simp add: forest_ok_def forest_leaves_def)
  next
    case True
    from extractMin_Some [OF 1(2)] obtain l heap1
      where e1: "extractMin heap = (Some l, heap1)" and m1: "mset heap = add_mset l (mset heap1)"
      by blast
    have "length heap1 = length heap - 1"
      using e1 by (rule extractMin_length)
    with True have "heap1 \<noteq> []" by auto
    from extractMin_Some [OF this] obtain r heap2
      where e2: "extractMin heap1 = (Some r, heap2)" and m2: "mset heap1 = add_mset r (mset heap2)"
      by blast
    define heap3 where "heap3 = insert_heap heap2 (merge_nodes l r)"
    have m3: "mset heap3 = add_mset (merge_nodes l r) (mset heap2)"
      by (simp add: heap3_def mset_insert_heap)
    have ne: "heap3 \<noteq> []"
      using m3 by auto
    have sets: "set heap = insert l (insert r (set heap2))"
      using m1 m2 by (metis set_mset_add_mset_insert set_mset_mset)
    have set3: "set heap3 = insert (merge_nodes l r) (set heap2)"
      using m3 by (metis set_mset_add_mset_insert set_mset_mset)
    have ok: "forest_ok heap3"
      using 1(3) by (auto simp: forest_ok_def sets set3 merge_nodes_def)
    have lv: "forest_leaves heap3 = forest_leaves heap"
      by (simp add: forest_leaves_def m1 m2 m3)
    have step: "build_loop heap = build_loop heap3"
      using True e1 e2 by (subst build_loop.simps) (simp add: heap3_def merge_nodes_def)
    from 1(1) [OF True e1 [symmetric] refl e2 [symmetric] refl, folded merge_nodes_def heap3_def, OF ne ok]
    show ?thesis by (simp add: step lv)
  qed
qed

lemma mset_Object_entries: "mset (Object_entries obj) = mset obj"
  by (simp add: Object_entries_def)

lemma mset_heap_of_entries:
  "mset (foldl (\<lambda>h e. insert_heap h (HuffmanNode (JStr (fst e)) (snd e) None None)) h0 es)
   = mset h0 + mset (map leaf_node es)"
  by (induction es arbitrary: h0) (simp_all add: mset_insert_heap leaf_node_def)

lemma forest_leaves_leaves:
  "mset heap = mset (map leaf_node es) \<Longrightarrow> forest_leaves heap = mset (map (\<lambda>e. JStr (fst e)) es)"
proof -
  assume "mset heap = mset (map leaf_node es)"
  then have "forest_leaves heap = (\<Sum>t \<in># mset (map leaf_node es). leaf_mset t)"
    by (simp add: forest_leaves_def)
  also have "\<dots> = mset (map (\<lambda>e. JStr (fst e)) es)"
    by (induction es) simp_all
  finally show ?thesis .
qed

lemma buildHuffmanTree_empty: "buildHuffmanTree [] = Inr None"
  by (simp add: buildHuffmanTree_def Object_entries_def build_loop.simps extractMin_def)

lemma buildHuffmanTree_single:
  "buildHuffmanTree [e] = Inr (Some (HuffmanNode JNull (snd e) (Some (leaf_node e)) None))"
proof -
  define heap where
    "heap = foldl (\<lambda>h e. insert_heap h (HuffmanNode (JStr (fst e)) (snd e) None None)) [] (Object_entries [e])"
  have "Object_entries [e] = [e]"
    using mset_Object_entries [of "[e]"] by (simp add: mset_single_iff_right)
  then have "mset heap = {#leaf_node e#}"
    by (simp add: heap_def mset_insert_heap leaf_node_def)
  then have "heap = [leaf_node e]"
    by (simp add: mset_single_iff_right)
  then show ?thesis
    unfolding buildHuffmanTree_def heap_def [symmetric]
    by (simp add: extractMin_def leaf_node_def)
qed

lemma buildHuffmanTree_many:
  assumes "length ft \<ge> 2"
  shows "\<exists>t. buildHuffmanTree ft = Inr (Some t) \<and> two_children_sum t \<and> null_internal t
          \<and> leaf_mset t = mset (map (\<lambda>e. JStr (fst e)) ft) \<and> \<not> isLeaf t"
proof -
  define heap where
    "heap = foldl (\<lambda>h e. insert_heap h (HuffmanNode (JStr (fst e)) (snd e) None None)) [] (Object_entries ft)"
  have m: "mset heap = mset (map leaf_node (Object_entries ft))"
    unfolding heap_def mset_heap_of_entries by simp
  then have "size (mset heap) = size (mset (Object_entries ft))" by simp
  then have len: "length heap = length ft"
    by (simp add: mset_Object_entries)
  have ne: "heap \<noteq> []" using len assms by auto
  have "set heap = leaf_node ` set (Object_entries ft)"
    using m by (metis set_map set_mset_mset)
  then have ok: "forest_ok heap"
    by (auto simp: forest_ok_def leaf_node_def)
  from build_loop_result [OF ne ok] obtain t
    where t: "build_loop heap = Inr [t]" "two_children_sum t" "null_internal t"
      "leaf_mset t = forest_leaves heap"
    by blast
  have "forest_leaves heap = mset (map (\<lambda>e. JStr (fst e)) (Object_entries ft))"
    using m by (rule forest_leaves_leaves)
  also have "\<dots> = mset (map (\<lambda>e. JStr (fst e)) ft)"
    using mset_Object_entries [of ft] by (metis mset_map)
  finally have lv: "leaf_mset t = mset (map (\<lambda>e. JStr (fst e)) ft)"
    using t(4) by simp
  have "\<not> isLeaf t"
  proof
    assume "isLeaf t"
    then have "rel_paths t = [(char t, [])]" by (rule rel_paths_isLeaf)
    then have "size (leaf_mset t) = 1" by (simp add: leaf_mset_def)
    with lv assms show False by simp
  qed
  moreover have "buildHuffmanTree ft = Inr (Some t)"
    unfolding buildHuffmanTree_def heap_def [symmetric]
    using len assms t(1) by (simp add: extractMin_def)
  ultimately show ?thesis using t(2,3) lv by blast
qed

lemma fold_put_code_map:
  "fold (put_code code) (map (\<lambda>e. (fst e, b # snd e)) ps) m = fold (put_code (code @ [b])) ps m"
  by (induction ps arbitrary: m) (simp_all add: put_code_def)

lemma traverse_fold: "traverse n code codes = fold (put_code code) (rel_paths n) codes"
proof (induction n arbitrary: code codes rule: rel_paths.induct)
  case (1 c f)
  show ?case by (subst traverse.simps) (simp add: isLeaf_def put_code_def)
next
  case (2 c f l)
  then show ?case by (subst traverse.simps) (simp add: isLeaf_def fold_put_code_map)
next
  case (3 c f r)
  then show ?case by (subst traverse.simps) (simp add: isLeaf_def fold_put_code_map)
next
  case (4 c f l r)
  then show ?case by (subst traverse.simps) (simp add: isLeaf_def fold_put_code_map)
qed

lemma dom_fold_put_code:
  "dom (fold (put_code code) ps m)
   = dom m \<union> ((\<lambda>e. to_string (fst e)) ` set ps - {js ''__proto__''})"
  by (induction ps arbitrary: m) (auto simp: put_code_def set_property_def)

lemma fold_put_code_lookup:
  "fold (put_code code) ps m k = Some q \<Longrightarrow>
   m k = Some q \<or> (\<exists>e \<in> set ps. to_string (fst e) = k \<and> q = code @ snd e)"
proof (induction ps arbitrary: m)
  case Nil
  then show ?case by simp
next
  case (Cons e ps)
  from Cons.IH [of "put_code code e m"] Cons.prems
  show ?case by (auto simp: put_code_def set_property_def split: if_splits)
qed

lemma rel_paths_bit:
  "e \<in> set (rel_paths n) \<Longrightarrow> b \<in> set (snd e) \<Longrightarrow> b = zero_bit \<or> b = one_bit"
  by (induction n arbitrary: e rule: rel_paths.induct) fastforce+

lemma rel_paths_binary:
  "e \<in> set (rel_paths n) \<Longrightarrow> set (snd e) \<subseteq> {zero_bit, one_bit}"
  using rel_paths_bit by blast

lemma rel_paths_nonempty:
  "\<not> isLeaf n \<Longrightarrow> e \<in> set (rel_paths n) \<Longrightarrow> snd e \<noteq> []"
  by (cases n rule: rel_paths.cases) (auto simp: isLeaf_def)

lemma zero_not_one: "zero_bit \<noteq> one_bit"
  by (simp add: zero_bit_def one_bit_def)

lemma rel_paths_prefix_free:
  "e \<in> set (rel_paths n) \<Longrightarrow> e' \<in> set (rel_paths n) \<Longrightarrow> fst e \<noteq> fst e' \<Longrightarrow>
   \<not> prefix (snd e) (snd e')"
proof (induction n arbitrary: e e' rule: rel_paths.induct)
  case (1 c f)
  then show ?case by simp
next
  case (2 c f l)
  then show ?case by auto
next
  case (3 c f r)
  then show ?case by auto
next
  case (4 c f l r)
  from 4(3) consider (L) x where "x \<in> set (rel_paths l)" "e = (fst x, zero_bit # snd x)"
    | (R) x where "x \<in> set (rel_paths r)" "e = (fst x, one_bit # snd x)"
    by auto
  then show ?case
  proof cases
    case L
    from 4(4) consider (L') y where "y \<in> set (rel_paths l)" "e' = (fst y, zero_bit # snd y)"
      | (R') y where "y \<in> set (rel_paths r)" "e' = (fst y, one_bit # snd y)"
      by auto
    then show ?thesis
    proof cases
      case L'
      with L 4(1) [of x y] 4(5) show ?thesis by simp
    next
      case R'
      with L zero_not_one show ?thesis by simp
    qed
  next
    case R
    from 4(4) consider (L') y where "y \<in> set (rel_paths l)" "e' = (fst y, zero_bit # snd y)"
      | (R') y where "y \<in> set (rel_paths r)" "e' = (fst y, one_bit # snd y)"
      by auto
    then show ?thesis
    proof cases
      case L'
      with R zero_not_one show ?thesis by simp
    next
      case R'
      with R 4(2) [of x y] 4(5) show ?thesis by simp
    qed
  qed
qed

lemma buildCodes_internal:
  "\<not> isLeaf root \<Longrightarrow> buildCodes root = fold (put_code []) (rel_paths root) Map.empty"
  by (simp add: buildCodes_def traverse_fold)

lemma buildCodes_lookup:
  assumes "\<not> isLeaf root" and "buildCodes root k = Some q"
  shows "\<exists>e \<in> set (rel_paths root). to_string (fst e) = k \<and> q = snd e"
  using fold_put_code_lookup [of "[]" "rel_paths root" Map.empty k q] assms
  by (simp add: buildCodes_internal)

lemma dom_buildCodes:
  "\<not> isLeaf root \<Longrightarrow>
   dom (buildCodes root) = (\<lambda>e. to_string (fst e)) ` set (rel_paths root) - {js ''__proto__''}"
  by (simp add: buildCodes_internal dom_fold_put_code)

lemma code_table_of_tree:
  assumes nl: "\<not> isLeaf root"
    and leaves: "fst ` set (rel_paths root) = JStr ` K"
    and proto: "js ''__proto__'' \<notin> K"
  shows "dom (buildCodes root) = K
     \<and> (\<forall>k c. buildCodes root k = Some c \<longrightarrow> c \<noteq> [] \<and> set c \<subseteq> {zero_bit, one_bit})
     \<and> (\<forall>k k' c c'. k \<noteq> k' \<longrightarrow> buildCodes root k = Some c \<longrightarrow> buildCodes root k' = Some c'
            \<longrightarrow> \<not> prefix c c')"
proof (intro conjI allI impI)
  have "(\<lambda>e. to_string (fst e)) ` set (rel_paths root) = to_string ` (fst ` set (rel_paths root))"
    by (simp add: image_image)
  also have "\<dots> = K" by (simp add: leaves image_image)
  finally show "dom (buildCodes root) = K" using proto by (simp add: dom_buildCodes [OF nl])
next
  fix k c assume "buildCodes root k = Some c"
  from buildCodes_lookup [OF nl this] obtain e
    where e: "e \<in> set (rel_paths root)" "c = snd e" by blast
  show "c \<noteq> []" using rel_paths_nonempty [OF nl e(1)] e(2) by simp
  show "set c \<subseteq> {zero_bit, one_bit}" using rel_paths_binary [OF e(1)] e(2) by simp
next
  fix k k' c c'
  assume ne: "k \<noteq> k'" and "buildCodes root k = Some c" and "buildCodes root k' = Some c'"
  from buildCodes_lookup [OF nl this(2)] buildCodes_lookup [OF nl this(3)] obtain e e'
    where e: "e \<in> set (rel_paths root)" "to_string (fst e) = k" "c = snd e"
      and e': "e' \<in> set (rel_paths root)" "to_string (fst e') = k'" "c' = snd e'"
    by blast
  from ne e(2) e'(2) have "fst e \<noteq> fst e'" by auto
  from rel_paths_prefix_free [OF e(1) e'(1) this] show "\<not> prefix c c'"
    by (simp add: e(3) e'(3))
qed

lemma tree_of_table:
  assumes "ft \<noteq> []"
  shows "\<exists>root. buildHuffmanTree ft = Inr (Some root) \<and> \<not> isLeaf root \<and> null_internal root
           \<and> fst ` set (rel_paths root) = JStr ` fst ` set ft"
proof (cases "length ft \<ge> 2")
  case True
  from buildHuffmanTree_many [OF True] obtain t
    where t: "buildHuffmanTree ft = Inr (Some t)" "null_internal t"
      "leaf_mset t = mset (map (\<lambda>e. JStr (fst e)) ft)" "\<not> isLeaf t"
    by blast
  from t(3) have "set (map fst (rel_paths t)) = set (map (\<lambda>e. JStr (fst e)) ft)"
    unfolding leaf_mset_def by (metis set_mset_mset)
  then have "fst ` set (rel_paths t) = JStr ` fst ` set ft"
    by (simp add: image_image)
  with t show ?thesis by blast
next
  case False
  with assms obtain e where e: "ft = [e]"
    by (cases ft; cases "tl ft") auto
  show ?thesis
    unfolding e buildHuffmanTree_single
    by (simp add: isLeaf_def leaf_node_def)
qed

lemma example_tree_built: "buildHuffmanTree example_table = Inr (Some example_tree)"
  by code_simp

lemma example_codes:
  "buildCodes example_tree (js ''a'') = Some (js ''1'')
   \<and> buildCodes example_tree (js ''b'') = Some (js ''01'')
   \<and> buildCodes example_tree (js ''c'') = Some (js ''00'')"
  by code_simp

lemma concat_code_points: "concat (code_points s) = s"
  by (induction s rule: code_points.induct) simp_all

lemma code_points_units:
  "\<forall>c \<in> set s. \<not> is_high_surrogate c \<Longrightarrow> code_points s = map (\<lambda>c. [c]) s"
  by (induction s rule: code_points.induct) simp_all

lemma code_points_nonempty: "s \<noteq> [] \<Longrightarrow> code_points s \<noteq> []"
  by (cases s rule: code_points.cases) simp_all

lemma keys_freq_incr: "fst ` set (freq_incr k ft) = insert k (fst ` set ft)"
proof (induction ft)
  case Nil
  show ?case by simp
next
  case (Cons a ft)
  obtain k' c where a: "a = (k', c)" by (cases a)
  show ?case
  proof (cases "k = k'")
    case True
    then show ?thesis by (simp add: a insert_absorb)
  next
    case False
    then show ?thesis using Cons by (simp add: a insert_commute)
  qed
qed

lemma keys_foldl_freq_incr:
  "fst ` set (foldl (\<lambda>ft v. freq_incr (to_string v) ft) ft0 vs) = fst ` set ft0 \<union> to_string ` set vs"
  by (induction vs arbitrary: ft0) (auto simp: keys_freq_incr)

lemma keys_buildFrequencyTable:
  "fst ` set (buildFrequencyTable data) = to_string ` set (symbols_of data)"
  by (simp add: buildFrequencyTable_def keys_foldl_freq_incr)

lemma symbols_nonempty: "\<not> input_is_empty data \<Longrightarrow> symbols_of data \<noteq> []"
  by (cases data) (auto simp: code_points_nonempty)

lemma deserialize_serialize:
  "null_internal n \<Longrightarrow> deserializeTree (serializeTree (Some n)) = Some n"
  by (induction n rule: rel_paths.induct) (simp_all add: isLeaf_def)

lemma decode_path:
  assumes "\<not> isLeaf root"
  shows "e \<in> set (rel_paths n) \<Longrightarrow> \<not> isLeaf n \<Longrightarrow>
    decode_loop root n (map (\<lambda>c. [c]) (snd e) @ rest) decoded
    = decode_loop root root rest (decoded @ [fst e])"
proof (induction n arbitrary: e decoded rule: rel_paths.induct)
  case (1 c f)
  then show ?case by (simp add: isLeaf_def)
next
  case (2 c f l)
  then obtain x where x: "x \<in> set (rel_paths l)" "e = (fst x, zero_bit # snd x)" by auto
  show ?case
  proof (cases "isLeaf l")
    case True
    with x have "x = (char l, [])" by (simp add: rel_paths_isLeaf)
    with True x assms show ?thesis by simp
  next
    case False
    with 2(1) [OF x(1) False] x assms show ?thesis by simp
  qed
next
  case (3 c f r)
  then obtain x where x: "x \<in> set (rel_paths r)" "e = (fst x, one_bit # snd x)" by auto
  have ne: "one_bit \<noteq> zero_bit" by (simp add: zero_bit_def one_bit_def)
  show ?case
  proof (cases "isLeaf r")
    case True
    with x have "x = (char r, [])" by (simp add: rel_paths_isLeaf)
    with True x assms ne show ?thesis by simp
  next
    case False
    with 3(1) [OF x(1) False] x assms ne show ?thesis by simp
  qed
next
  case (4 c f l r)
  have ne: "one_bit \<noteq> zero_bit" by (simp add: zero_bit_def one_bit_def)
  from 4(3) consider (L) x where "x \<in> set (rel_paths l)" "e = (fst x, zero_bit # snd x)"
    | (R) x where "x \<in> set (rel_paths r)" "e = (fst x, one_bit # snd x)"
    by auto
  then show ?case
  proof cases
    case L
    show ?thesis
    proof (cases "isLeaf l")
      case True
      with L have "x = (char l, [])" by (simp add: rel_paths_isLeaf)
      with True L assms show ?thesis by simp
    next
      case False
      with 4(1) [OF L(1) False] L assms show ?thesis by simp
    qed
  next
    case R
    show ?thesis
    proof (cases "isLeaf r")
      case True
      with R have "x = (char r, [])" by (simp add: rel_paths_isLeaf)
      with True R assms ne show ?thesis by simp
    next
      case False
      with 4(2) [OF R(1) False] R assms ne show ?thesis by simp
    qed
  qed
qed

lemma decode_all:
  assumes "\<not> isLeaf root"
  shows "\<forall>v \<in> set vs. (f v, g v) \<in> set (rel_paths root) \<Longrightarrow>
    decode_loop root root (map (\<lambda>c. [c]) (concat (map g vs))) decoded = Inr (decoded @ map f vs)"
proof (induction vs arbitrary: decoded)
  case Nil
  show ?case by simp
next
  case (Cons v vs)
  then have e: "(f v, g v) \<in> set (rel_paths root)" by simp
  have "decode_loop root root (map (\<lambda>c. [c]) (g v) @ map (\<lambda>c. [c]) (concat (map g vs))) decoded
      = decode_loop root root (map (\<lambda>c. [c]) (concat (map g vs))) (decoded @ [f v])"
    using decode_path [OF assms e assms] by simp
  with Cons show ?case by simp
qed

lemma digit_unit_props:
  "d < 10 \<Longrightarrow> digit_value (digit_unit d) = d \<and> \<not> is_white_space (digit_unit d)
     \<and> digit_unit d \<notin> {0x2B, 0x2D, 0x78, 0x58} \<and> \<not> is_high_surrogate (digit_unit d)"
proof -
  assume "d < 10"
  then have "d \<in> {0, 1, 2, 3, 4, 5, 6, 7, 8, 9}" by auto
  then show ?thesis
    by (elim insertE emptyE;
        simp add: digit_unit_def digit_value_def is_white_space_def is_high_surrogate_def)
qed

lemma bit_units: "digit_unit 0 = zero_bit" "digit_unit (Suc 0) = one_bit"
  by (simp_all add: digit_unit_def zero_bit_def one_bit_def)

lemma bit_props:
  "c \<in> {zero_bit, one_bit} \<Longrightarrow> digit_value c < 2 \<and> \<not> is_white_space c
     \<and> c \<notin> {0x2B, 0x2D} \<and> \<not> is_high_surrogate c \<and> digit_unit (digit_value c) = c"
  by (elim insertE emptyE;
      simp add: digit_unit_def digit_value_def is_white_space_def is_high_surrogate_def
        zero_bit_def one_bit_def)

lemma dropWhile_hd: "s \<noteq> [] \<Longrightarrow> \<not> P (hd s) \<Longrightarrow> dropWhile P s = s"
  by (cases s) simp_all

lemma parseInt_binary:
  assumes "s \<noteq> []" and "binary s"
  shows "parseInt s (Some 2) = JNum (int (bin_val s))"
proof -
  have all: "\<forall>c \<in> set s. c \<in> {zero_bit, one_bit}" using assms(2) by (auto simp: binary_def)
  have h: "hd s \<in> {zero_bit, one_bit}" using assms(1) all by (cases s) auto
  have d: "dropWhile is_white_space s = s"
    using assms(1) h bit_props [of "hd s"] by (intro dropWhile_hd) auto
  have sg: "hd s \<noteq> 0x2D" "hd s \<noteq> 0x2B" using h bit_props [of "hd s"] by auto
  have t: "takeWhile (\<lambda>c. digit_value c < 2) s = s"
    using all bit_props by (simp add: takeWhile_eq_all_conv)
  show ?thesis
    using assms(1) by (simp add: parseInt_def Let_def d sg t bin_val_def)
qed

lemma bin_val_snoc: "bin_val (s @ [c]) = bin_val s * 2 + digit_value c"
  by (simp add: bin_val_def)

lemma digits2_pad:
  "s \<noteq> [] \<Longrightarrow> binary s \<Longrightarrow>
   length (digits 2 (bin_val s)) \<le> length s \<and> padStart (length s) zero_bit (digits 2 (bin_val s)) = s"
proof (induction s rule: rev_nonempty_induct)
  case (single c)
  then have c: "c \<in> {zero_bit, one_bit}" by (simp add: binary_def)
  then have "bin_val [c] = digit_value c" "digit_value c < 2" "digit_unit (digit_value c) = c"
    using bit_props [of c] by (simp_all add: bin_val_def)
  then show ?case by (subst (1 2) digits.simps) (simp add: padStart_def)
next
  case (snoc c s)
  then have c: "c \<in> {zero_bit, one_bit}" and bs: "binary s" by (simp_all add: binary_def)
  have dv: "digit_value c < 2" "digit_unit (digit_value c) = c"
    using bit_props [OF c] by simp_all
  from snoc(2) [OF bs]
  have IH: "length (digits 2 (bin_val s)) \<le> length s"
    "padStart (length s) zero_bit (digits 2 (bin_val s)) = s" by simp_all
  show ?case
  proof (cases "bin_val s = 0")
    case True
    have "digits 2 0 = [zero_bit]" by (subst digits.simps) (simp add: bit_units)
    with IH(2) True have s: "s = replicate (length s - 1) zero_bit @ [zero_bit]"
      by (simp add: padStart_def)
    have "digits 2 (bin_val (s @ [c])) = [c]"
      using True dv by (subst digits.simps) (simp add: bin_val_snoc)
    moreover have "replicate (length s) zero_bit = s"
    proof -
      obtain n where n: "s = replicate n zero_bit @ [zero_bit]" using s by blast
      have "length (replicate n zero_bit @ [zero_bit]) = Suc n" by simp
      then have "length s = Suc n" using n by simp
      then have "replicate (length s) zero_bit = replicate n zero_bit @ [zero_bit]"
        by (simp add: replicate_append_same)
      then show ?thesis using n by simp
    qed
    ultimately show ?thesis by (simp add: padStart_def)
  next
    case False
    then have "\<not> bin_val s * 2 + digit_value c < 2" by simp
    moreover have "(bin_val s * 2 + digit_value c) div 2 = bin_val s"
      "(bin_val s * 2 + digit_value c) mod 2 = digit_value c"
      using dv(1) by simp_all
    ultimately have "digits 2 (bin_val (s @ [c])) = digits 2 (bin_val s) @ [c]"
      using dv(2) by (subst digits.simps) (simp add: bin_val_snoc)
    moreover have "replicate (length s - length (digits 2 (bin_val s))) zero_bit
        @ digits 2 (bin_val s) = s"
      using IH(2) by (simp add: padStart_def)
    then have "replicate (length s - length (digits 2 (bin_val s))) zero_bit
        @ digits 2 (bin_val s) @ [c] = s @ [c]"
      by (simp flip: append_assoc)
    ultimately show ?thesis
      using IH(1) by (simp add: padStart_def)
  qed
qed

lemma byte_roundtrip:
  assumes "length s = 8" and "binary s"
  shows "\<exists>w. toString_radix 2 (parseInt s (Some 2)) = Inr w \<and> padStart 8 zero_bit w = s"
proof -
  have ne: "s \<noteq> []" using assms(1) by auto
  from digits2_pad [OF ne assms(2)] assms(1)
  have "padStart 8 zero_bit (digits 2 (bin_val s)) = s" by simp
  then show ?thesis
    by (simp add: parseInt_binary [OF ne assms(2)] number_to_string_def)
qed

lemma bits_of_snoc:
  "bits_of (bytes @ [b]) acc = (case bits_of bytes acc of Inl e \<Rightarrow> Inl e | Inr s \<Rightarrow> bits_of [b] s)"
  by (induction bytes arbitrary: acc) (simp_all split: sum.splits)

lemma binary_padEnd: "binary s \<Longrightarrow> binary (padEnd n zero_bit s)"
  by (auto simp: binary_def padEnd_def)

lemma pack_unpack:
  "binary bits \<Longrightarrow> i mod 8 = 0 \<Longrightarrow> i \<le> length bits \<Longrightarrow> bits_of acc [] = Inr (take i bits) \<Longrightarrow>
   bits_of (pack_bits bits i acc) []
   = Inr (bits @ replicate ((8 - length bits mod 8) mod 8) zero_bit)"
proof (induction bits i acc rule: pack_bits.induct)
  case (1 bits i acc)
  show ?case
  proof (cases "i < length bits")
    case False
    with 1(4) have "i = length bits" by simp
    with 1(3,5) False show ?thesis by (subst pack_bits.simps) auto
  next
    case True
    define chunk where "chunk = take 8 (drop i bits)"
    define byte where "byte = parseInt (padEnd 8 zero_bit chunk) (Some 2)"
    have bc: "binary chunk"
      using 1(2) by (auto simp: binary_def chunk_def dest: in_set_takeD in_set_dropD)
    have lc: "length chunk = min 8 (length bits - i)" by (simp add: chunk_def)
    have lp: "length (padEnd 8 zero_bit chunk) = 8" by (simp add: padEnd_def lc)
    from byte_roundtrip [OF lp binary_padEnd [OF bc]] obtain w
      where w: "toString_radix 2 byte = Inr w" "padStart 8 zero_bit w = padEnd 8 zero_bit chunk"
      unfolding byte_def by blast
    have acc': "bits_of (acc @ [byte]) [] = Inr (take i bits @ padEnd 8 zero_bit chunk)"
      by (simp add: bits_of_snoc 1(5) w)
    have step: "pack_bits bits i acc = pack_bits bits (i + 8) (acc @ [byte])"
      using True by (subst pack_bits.simps) (simp add: byte_def chunk_def)
    show ?thesis
    proof (cases "i + 8 \<le> length bits")
      case True
      then have "padEnd 8 zero_bit chunk = chunk" by (simp add: padEnd_def lc)
      moreover have "take i bits @ chunk = take (i + 8) bits"
        by (simp add: chunk_def take_add)
      ultimately have "bits_of (acc @ [byte]) [] = Inr (take (i + 8) bits)"
        using acc' by simp
      with 1(1) [OF \<open>i < length bits\<close> 1(2) _ True] 1(3) step
      show ?thesis by (simp add: byte_def chunk_def)
    next
      case False
      then have r: "pack_bits bits (i + 8) (acc @ [byte]) = acc @ [byte]"
        by (subst pack_bits.simps) simp
      have ch: "chunk = drop i bits" using False by (simp add: chunk_def)
      have "length bits mod 8 = length bits - i"
      proof -
        have "(i + (length bits - i)) mod 8 = (length bits - i) mod 8"
          using 1(3) by (metis mod_add_left_eq add_0 mod_mod_trivial)
        with True False show ?thesis by simp
      qed
      moreover have "length bits - i < 8" "0 < length bits - i" using True False by simp_all
      ultimately have "(8 - length bits mod 8) mod 8 = 8 - length chunk"
        by (simp add: lc)
      then show ?thesis
        by (simp add: step r acc' padEnd_def ch)
    qed
  qed
qed

lemma pack_unpack_all:
  "binary bits \<Longrightarrow>
   bits_of (pack_bits bits 0 []) []
   = Inr (bits @ replicate ((8 - length bits mod 8) mod 8) zero_bit)"
  by (rule pack_unpack) simp_all

lemma parse_decimal_digits: "parse_decimal (digits 10 n) = n"
proof (induction "10 :: nat" n rule: digits.induct)
  case (1 n)
  show ?case
  proof (cases "n < 10")
    case True
    then show ?thesis
      using digit_unit_props [of n] by (subst digits.simps) (simp add: parse_decimal_def)
  next
    case False
    then have "parse_decimal (digits 10 (n div 10)) = n div 10" using 1 by simp
    then show ?thesis
      using False digit_unit_props [of "n mod 10"]
      by (subst digits.simps) (simp add: parse_decimal_def)
  qed
qed

lemma digits_decimal: "digits 10 n \<noteq> [] \<and> set (digits 10 n) \<subseteq> digit_unit ` {..<10}"
proof (induction "10 :: nat" n rule: digits.induct)
  case (1 n)
  show ?case
  proof (cases "n < 10")
    case True
    then show ?thesis by (subst (1 2) digits.simps) simp
  next
    case False
    with 1 show ?thesis by (subst (1 2) digits.simps) auto
  qed
qed

lemma parseInt_decimal: "parseInt (digits 10 n) None = JNum (int n)"
proof -
  define s where "s = digits 10 n"
  have ne: "s \<noteq> []" and all: "\<forall>c \<in> set s. \<exists>d < 10. c = digit_unit d"
    using digits_decimal [of n] by (auto simp: s_def)
  have h: "\<exists>d < 10. hd s = digit_unit d" using ne all by (cases s) auto
  have d: "dropWhile is_white_space s = s"
    using ne h digit_unit_props by (intro dropWhile_hd) auto
  have sg: "hd s \<noteq> 0x2D" "hd s \<noteq> 0x2B" using h digit_unit_props by auto
  have np: "take 2 s \<noteq> [0x30, 0x78]" "take 2 s \<noteq> [0x30, 0x58]"
  proof -
    have "x \<noteq> 0x78 \<and> x \<noteq> 0x58" if "x \<in> set s" for x
      using that all digit_unit_props by auto
    then have "0x78 \<notin> set (take 2 s)" "0x58 \<notin> set (take 2 s)"
      by (auto dest: in_set_takeD)
    then show "take 2 s \<noteq> [0x30, 0x78]" "take 2 s \<noteq> [0x30, 0x58]" by auto
  qed
  have t: "takeWhile (\<lambda>c. digit_value c < 10) s = s"
    using all digit_unit_props by (auto simp: takeWhile_eq_all_conv)
  have "foldl (\<lambda>a c. a * 10 + digit_value c) 0 s = n"
    using parse_decimal_digits [of n] by (simp add: parse_decimal_def s_def)
  then show ?thesis
    using ne unfolding s_def [symmetric]
    by (simp add: parseInt_def Let_def d sg np t)
qed

lemma code_of_path:
  assumes nl: "\<not> isLeaf root"
    and leaves: "fst ` set (rel_paths root) = JStr ` K"
    and proto: "js ''__proto__'' \<notin> K"
    and k: "to_string v \<in> K"
  shows "(JStr (to_string v), code_of (buildCodes root) v) \<in> set (rel_paths root)"
proof -
  have "dom (buildCodes root) = K"
    using code_table_of_tree [OF nl leaves proto] by blast
  with k obtain q where q: "buildCodes root (to_string v) = Some q" by auto
  from buildCodes_lookup [OF nl q] obtain e
    where e: "e \<in> set (rel_paths root)" "to_string (fst e) = to_string v" "q = snd e" by blast
  from e(1) leaves obtain k' where "fst e = JStr k'" by (metis imageE image_eqI)
  with e(2) have "fst e = JStr (to_string v)" by simp
  with e(1,3) have "(JStr (to_string v), q) \<in> set (rel_paths root)"
    by (metis prod.collapse)
  moreover have "to_string v \<noteq> js ''__proto__''" using k proto by auto
  ultimately show ?thesis by (simp add: code_of_def q)
qed

lemma binary_concat: "\<forall>s \<in> set ss. binary s \<Longrightarrow> binary (concat ss)"
  by (auto simp: binary_def)

lemma binary_units: "binary s \<Longrightarrow> code_points s = map (\<lambda>c. [c]) s"
proof (rule code_points_units)
  assume "binary s"
  then show "\<forall>c \<in> set s. \<not> is_high_surrogate c"
    using bit_props by (auto simp: binary_def)
qed

lemma trim_padding:
  "(if k > 0 then take (length (bits @ replicate k c) - k) (bits @ replicate k c)
    else bits @ replicate k c) = bits"
  by simp

lemma join_strings: "join (map JStr ks) = concat ks"
  by (induction ks) (simp_all add: join_def)

lemma parseInt_byte: "is_byte v \<Longrightarrow> parseInt (to_string v) None = v"
  by (cases v) (simp_all add: is_byte_def number_to_string_def parseInt_decimal)

lemma output_restored:
  assumes "text_or_bytes data"
  shows "(if isArray data
          then Arr (map (\<lambda>c. parseInt (to_string c) None) (map (\<lambda>v. JStr (to_string v)) (symbols_of data)))
          else Str (join (map (\<lambda>v. JStr (to_string v)) (symbols_of data)))) = data"
proof (cases data)
  case Absent
  with assms show ?thesis by simp
next
  case (Str s)
  have "map (\<lambda>v. JStr (to_string v)) (map JStr (code_points s)) = map JStr (code_points s)"
    by simp
  then show ?thesis
    by (simp add: Str join_strings concat_code_points comp_def)
next
  case (Arr xs)
  with assms have "\<forall>x \<in> set xs. parseInt (to_string x) None = x"
    by (simp add: list_all_iff parseInt_byte)
  then have "map (\<lambda>c. parseInt (to_string c) None) (map (\<lambda>v. JStr (to_string v)) xs) = xs"
    by (simp add: map_idI comp_def)
  then show ?thesis by (simp add: Arr)
qed

lemma huffmanCompress_Inr:
  assumes "\<not> input_is_empty data"
  shows "\<exists>root. \<not> isLeaf root \<and> null_internal root
      \<and> fst ` set (rel_paths root) = JStr ` to_string ` set (symbols_of data)
      \<and> huffmanCompress data
          = Inr \<lparr>originalLength = Some (length (elems_of data)),
                  isArrayData = Some (isArray data),
                  encodedData = Some (pack_bits (concat (map (code_of (buildCodes root)) (symbols_of data))) 0 []),
                  tree = serializeTree (Some root),
                  paddingBits = Some ((8 - length (concat (map (code_of (buildCodes root)) (symbols_of data))) mod 8) mod 8)\<rparr>"
proof -
  have "buildFrequencyTable data \<noteq> []"
    using keys_buildFrequencyTable [of data] symbols_nonempty [OF assms] by auto
  from tree_of_table [OF this] obtain root
    where r: "buildHuffmanTree (buildFrequencyTable data) = Inr (Some root)" "\<not> isLeaf root"
      "null_internal root"
      "fst ` set (rel_paths root) = JStr ` fst ` set (buildFrequencyTable data)"
    by blast
  have "huffmanCompress data
          = Inr \<lparr>originalLength = Some (length (elems_of data)),
                  isArrayData = Some (isArray data),
                  encodedData = Some (pack_bits (concat (map (code_of (buildCodes root)) (symbols_of data))) 0 []),
                  tree = serializeTree (Some root),
                  paddingBits = Some ((8 - length (concat (map (code_of (buildCodes root)) (symbols_of data))) mod 8) mod 8)\<rparr>"
    using assms by (simp add: huffmanCompress_def r(1) Let_def)
  with r(2,3,4) show ?thesis
    by (auto simp: keys_buildFrequencyTable)
qed

lemma length_code_point: "k \<in> set (code_points s) \<Longrightarrow> length k \<le> 2"
  by (induction s rule: code_points.induct) (auto split: if_splits)

lemma digits_not_proto: "digits 10 n \<noteq> js ''__proto__''"
proof
  assume e: "digits 10 n = js ''__proto__''"
  have "0x5F \<in> set (js ''__proto__'')" by (simp add: js_def)
  with e digits_decimal [of n] obtain d where d: "d < 10" "digit_unit d = 0x5F" by auto
  have "digit_value 0x5F = 36" by (simp add: digit_value_def)
  with digit_unit_props [OF d(1)] d show False by simp
qed

lemma symbols_not_proto:
  assumes "text_or_bytes data"
  shows "js ''__proto__'' \<notin> to_string ` set (symbols_of data)"
proof (cases data)
  case Absent
  then show ?thesis by simp
next
  case (Str s)
  have "k \<noteq> js ''__proto__''" if "k \<in> set (code_points s)" for k
    using length_code_point [OF that] by (auto simp: js_def)
  then have "js ''__proto__'' \<notin> set (code_points s)" by blast
  then show ?thesis by (auto simp: Str)
next
  case (Arr xs)
  have "to_string x \<noteq> js ''__proto__''" if "x \<in> set xs" for x
  proof -
    from assms that have "is_byte x" by (simp add: Arr list_all_iff)
    then show ?thesis
      by (cases x) (simp_all add: is_byte_def number_to_string_def digits_not_proto)
  qed
  then have "js ''__proto__'' \<notin> to_string ` set xs" by (metis imageE)
  then show ?thesis by (simp add: Arr)
qed

lemma huffman_roundtrip:
  assumes ne: "\<not> input_is_empty data" and dom: "text_or_bytes data"
  shows "\<exists>p. huffmanCompress data = Inr p \<and> huffmanDecompress (Some p) = Inr data"
proof -
  from huffmanCompress_Inr [OF ne] obtain root
    where nl: "\<not> isLeaf root" and ni: "null_internal root"
      and leaves: "fst ` set (rel_paths root) = JStr ` to_string ` set (symbols_of data)"
      and c: "huffmanCompress data
          = Inr \<lparr>originalLength = Some (length (elems_of data)),
                  isArrayData = Some (isArray data),
                  encodedData = Some (pack_bits (concat (map (code_of (buildCodes root)) (symbols_of data))) 0 []),
                  tree = serializeTree (Some root),
                  paddingBits = Some ((8 - length (concat (map (code_of (buildCodes root)) (symbols_of data))) mod 8) mod 8)\<rparr>"
    by blast
  define syms where "syms = symbols_of data"
  define bits where "bits = concat (map (code_of (buildCodes root)) syms)"
  define pad where "pad = (8 - length bits mod 8) mod 8"
  have paths: "\<forall>v \<in> set syms. (JStr (to_string v), code_of (buildCodes root) v) \<in> set (rel_paths root)"
    using code_of_path [OF nl leaves symbols_not_proto [OF dom]] by (simp add: syms_def)
  have bin: "binary bits"
    unfolding bits_def
    using paths rel_paths_binary by (intro binary_concat) (fastforce simp: binary_def)
  have unpack: "bits_of (pack_bits bits 0 []) [] = Inr (bits @ replicate pad zero_bit)"
    unfolding pad_def using bin by (rule pack_unpack_all)
  have dec: "decode_loop root root (code_points bits) [] = Inr (map (\<lambda>v. JStr (to_string v)) syms)"
    using decode_all [OF nl, of syms "\<lambda>v. JStr (to_string v)" "code_of (buildCodes root)" "[]"] paths
    unfolding binary_units [OF bin] by (simp add: bits_def)
  obtain t where t: "serializeTree (Some root) = Some t"
    by (cases "isLeaf root") simp_all
  have des: "deserializeTree (Some t) = Some root"
    using deserialize_serialize [OF ni] by (simp only: t)
  have "huffmanDecompress (Some \<lparr>originalLength = Some (length (elems_of data)),
                  isArrayData = Some (isArray data),
                  encodedData = Some (pack_bits bits 0 []),
                  tree = Some t,
                  paddingBits = Some pad\<rparr>) = Inr data"
  proof -
    have o1: "Arr (map ((\<lambda>c. parseInt (to_string c) None) \<circ> (\<lambda>v. JStr (to_string v)))
        (symbols_of data)) = data" if "isArray data"
      using output_restored [OF dom] that by simp
    have o2: "Str (join (map (\<lambda>v. JStr (to_string v)) (symbols_of data))) = data"
      if "\<not> isArray data"
      using output_restored [OF dom] that by simp
    show ?thesis
      by (simp add: huffmanDecompress_def des unpack dec syms_def o1 o2
          del: deserializeTree.simps)
  qed
  then show ?thesis
    unfolding c t pad_def bits_def syms_def by (simp del: serializeTree.simps)
qed

lemma ab_compressed: "huffmanCompress (Str (js ''ab'')) = Inr ab_payload"
  by code_simp

section \<open>Claims about the Huffman tree and the code table\<close>

text \<open>
  C3: for every frequency table with at least one symbol, the code table of
  \<^verbatim>\<open>buildCodes(buildHuffmanTree(freqTable))\<close> has exactly the symbols of the table as its
  keys, every code is a non-empty string of the bits \<^verbatim>\<open>0\<close> and \<^verbatim>\<open>1\<close>, and no code is a
  prefix of the code of a different symbol. The keys of the table are keys of symbols
  (a code point, or the numeral of a byte), so none of them is \<^verbatim>\<open>__proto__\<close>.
\<close>

theorem code_table_prefix_free:
  "ft \<noteq> [] \<Longrightarrow> js ''__proto__'' \<notin> fst ` set ft \<Longrightarrow>
   \<exists>root. buildHuffmanTree ft = Inr (Some root)
     \<and> dom (buildCodes root) = fst ` set ft
     \<and> (\<forall>k c. buildCodes root k = Some c \<longrightarrow> c \<noteq> [] \<and> set c \<subseteq> {zero_bit, one_bit})
     \<and> (\<forall>k k' c c'. k \<noteq> k' \<longrightarrow> buildCodes root k = Some c \<longrightarrow> buildCodes root k' = Some c'
            \<longrightarrow> \<not> prefix c c')"
proof -
  assume "ft \<noteq> []" and proto: "js ''__proto__'' \<notin> fst ` set ft"
  from tree_of_table [OF this(1)] obtain root
    where r: "buildHuffmanTree ft = Inr (Some root)" "\<not> isLeaf root"
      "fst ` set (rel_paths root) = JStr ` fst ` set ft"
    by blast
  from code_table_of_tree [OF r(2) r(3) proto] r(1) show ?thesis by blast
qed

theorem code_table_prefix_free_witness:
  "example_table \<noteq> [] \<and> js ''__proto__'' \<notin> fst ` set example_table
   \<and> (\<exists>root. buildHuffmanTree example_table = Inr (Some root)
        \<and> dom (buildCodes root) = {js ''a'', js ''b'', js ''c''}
        \<and> buildCodes root (js ''a'') = Some (js ''1'')
        \<and> buildCodes root (js ''b'') = Some (js ''01'')
        \<and> buildCodes root (js ''c'') = Some (js ''00'')
        \<and> \<not> prefix (js ''1'') (js ''01'') \<and> \<not> prefix (js ''01'') (js ''00''))"
proof -
  have ne: "example_table \<noteq> []" by (simp add: example_table_def)
  have np: "js ''__proto__'' \<notin> fst ` set example_table"
    by (simp add: example_table_def js_def)
  from code_table_prefix_free [OF ne np] obtain root
    where r: "buildHuffmanTree example_table = Inr (Some root)"
      "dom (buildCodes root) = fst ` set example_table"
      "\<forall>k k' c c'. k \<noteq> k' \<longrightarrow> buildCodes root k = Some c \<longrightarrow> buildCodes root k' = Some c'
            \<longrightarrow> \<not> prefix c c'"
    by blast
  from r(1) have root: "root = example_tree" by (simp add: example_tree_built)
  have d: "js ''a'' \<noteq> js ''b''" "js ''b'' \<noteq> js ''c''" by (simp_all add: js_def)
  from r(3) d example_codes root
  have "\<not> prefix (js ''1'') (js ''01'')" "\<not> prefix (js ''01'') (js ''00'')"
    by blast+
  moreover have "dom (buildCodes root) = {js ''a'', js ''b'', js ''c''}"
    using r(2) by (simp add: example_table_def)
  ultimately show ?thesis
    using ne np r(1) example_codes root by blast
qed

text \<open>
  C6, as the code has it: for a table of two or more symbols every internal node of the
  tree of \<^verbatim>\<open>buildHuffmanTree\<close> has exactly two children and the sum of their frequencies
  as its frequency; for a table of one symbol the tree is an internal node with the
  symbol's leaf as its only child and the leaf's frequency; and the node a merge step
  creates from two trees with the invariant has the invariant.
\<close>

theorem tree_invariant:
  "(length ft \<ge> 2 \<longrightarrow> (\<exists>t. buildHuffmanTree ft = Inr (Some t) \<and> two_children_sum t))
   \<and> buildHuffmanTree [(k, f)]
       = Inr (Some (HuffmanNode JNull f (Some (HuffmanNode (JStr k) f None None)) None))
   \<and> (two_children_sum l \<longrightarrow> two_children_sum r \<longrightarrow>
        two_children_sum (HuffmanNode JNull (freq l + freq r) (Some l) (Some r)))"
  using buildHuffmanTree_many [of ft]
  by (auto simp: buildHuffmanTree_single leaf_node_def)

theorem tree_invariant_witness:
  "length example_table \<ge> 2
   \<and> buildHuffmanTree example_table = Inr (Some example_tree)
   \<and> two_children_sum example_tree"
  using tree_invariant [of example_table undefined undefined "HuffmanNode JNull 0 None None" "HuffmanNode JNull 0 None None"]
  by (simp add: example_table_def [symmetric] example_tree_built) (simp add: example_table_def)

text \<open>
  C6 as stated fails for a table of one symbol: the root is an internal node with one
  child.
\<close>

theorem single_symbol_tree:
  "buildHuffmanTree single_table
     = Inr (Some (HuffmanNode JNull 3 (Some (HuffmanNode (JStr (js ''a'')) 3 None None)) None))
   \<and> \<not> two_children_sum
         (HuffmanNode JNull 3 (Some (HuffmanNode (JStr (js ''a'')) 3 None None)) None)"
  by (simp add: single_table_def buildHuffmanTree_single leaf_node_def)

section \<open>Claims about the codecs\<close>

text \<open>
  C1: for every non-empty input \<open>I\<close>, a string or an array of bytes, decoding what the
  matching encoder produced gives \<open>I\<close> back, as a string or as an array like \<open>I\<close>:
  \<^verbatim>\<open>rleDecompress(rleCompress(I))\<close>, \<^verbatim>\<open>rleDecompressAdvanced(rleCompressAdvanced(I))\<close>
  and \<^verbatim>\<open>huffmanDecompress(huffmanCompress(I))\<close> are \<open>I\<close>. (The two run-length codecs
  restore every non-empty array.)
\<close>

theorem roundtrip:
  "\<not> input_is_empty data \<longrightarrow>
     (\<exists>p. rleCompress data = Inr p \<and> rleDecompress (Some p) = Inr data)
     \<and> (\<exists>p. rleCompressAdvanced data = Inr p \<and> rleDecompressAdvanced (Some p) = Inr data)
     \<and> (text_or_bytes data \<longrightarrow>
          (\<exists>p. huffmanCompress data = Inr p \<and> huffmanDecompress (Some p) = Inr data))"
  using rle_roundtrip [of data] adv_roundtrip [of data] huffman_roundtrip [of data]
  by blast

theorem roundtrip_witness:
  "\<not> input_is_empty abcabc \<and> text_or_bytes abcabc
   \<and> (\<exists>p. rleCompress abcabc = Inr p \<and> rleDecompress (Some p) = Inr abcabc)
   \<and> (\<exists>p. rleCompressAdvanced abcabc = Inr p \<and> rleDecompressAdvanced (Some p) = Inr abcabc)
   \<and> (\<exists>p. huffmanCompress abcabc = Inr p \<and> huffmanDecompress (Some p) = Inr abcabc)
   \<and> \<not> input_is_empty some_bytes \<and> text_or_bytes some_bytes
   \<and> (\<exists>p. huffmanCompress some_bytes = Inr p \<and> huffmanDecompress (Some p) = Inr some_bytes)"
proof -
  have a: "\<not> input_is_empty abcabc" "text_or_bytes abcabc"
    by (simp_all add: abcabc_def js_def)
  have b: "\<not> input_is_empty some_bytes" "text_or_bytes some_bytes"
    by (simp_all add: some_bytes_def is_byte_def)
  from roundtrip [of abcabc] roundtrip [of some_bytes] a b show ?thesis by blast
qed

text \<open>
  C8: \<^verbatim>\<open>huffmanCompress\<close>, \<^verbatim>\<open>rleCompress\<close> and \<^verbatim>\<open>rleCompressAdvanced\<close> fail with
  \<open>EmptyInputError\<close> exactly when the input is absent or has length zero, and return a
  payload for every other input (a string or an array of bytes, for
  \<^verbatim>\<open>huffmanCompress\<close>).
\<close>

theorem empty_input_rejected:
  "(huffmanCompress data = Inl EmptyInputError \<longleftrightarrow> data = Absent \<or> length (elems_of data) = 0)
   \<and> (rleCompress data = Inl EmptyInputError \<longleftrightarrow> data = Absent \<or> length (elems_of data) = 0)
   \<and> (rleCompressAdvanced data = Inl EmptyInputError
        \<longleftrightarrow> data = Absent \<or> length (elems_of data) = 0)
   \<and> (\<not> (data = Absent \<or> length (elems_of data) = 0) \<longrightarrow>
        (text_or_bytes data \<longrightarrow> (\<exists>p. huffmanCompress data = Inr p))
        \<and> (\<exists>p. rleCompress data = Inr p)
        \<and> (\<exists>p. rleCompressAdvanced data = Inr p))"
proof -
  have e: "input_is_empty data \<longleftrightarrow> data = Absent \<or> length (elems_of data) = 0"
    by (cases data) auto
  show ?thesis
  proof (cases "input_is_empty data")
    case True
    then show ?thesis
      using e by (simp add: huffmanCompress_def rleCompress_def rleCompressAdvanced_def)
  next
    case False
    from huffmanCompress_Inr [OF False] obtain p where "huffmanCompress data = Inr p" by blast
    then show ?thesis
      using False e by (auto simp: rleCompress_def rleCompressAdvanced_def)
  qed
qed

theorem empty_input_rejected_witness:
  "huffmanCompress Absent = Inl EmptyInputError \<and> rleCompress (Str []) = Inl EmptyInputError
   \<and> rleCompressAdvanced (Arr []) = Inl EmptyInputError
   \<and> \<not> (abcabc = Absent \<or> length (elems_of abcabc) = 0) \<and> text_or_bytes abcabc
   \<and> (\<exists>p. huffmanCompress abcabc = Inr p) \<and> (\<exists>p. rleCompress abcabc = Inr p)
   \<and> (\<exists>p. rleCompressAdvanced abcabc = Inr p)"
proof -
  have "\<not> (abcabc = Absent \<or> length (elems_of abcabc) = 0) \<and> text_or_bytes abcabc"
    by (simp add: abcabc_def js_def)
  with empty_input_rejected [of abcabc] empty_input_rejected [of Absent]
    empty_input_rejected [of "Str []"] empty_input_rejected [of "Arr []"]
  show ?thesis by simp
qed

text \<open>
  C2: \<^verbatim>\<open>huffmanDecompress\<close> never compares the number of decoded symbols with
  \<^verbatim>\<open>originalLength\<close>: the payload of \<^verbatim>\<open>"ab"\<close> with \<^verbatim>\<open>originalLength\<close> 7 decodes to
  the two symbols \<^verbatim>\<open>"ab"\<close> and no \<open>LengthMismatchError\<close> is raised.
\<close>

theorem length_not_checked:
  "originalLength mismatch_payload = Some 7
   \<and> huffmanDecompress (Some mismatch_payload) = Inr (Str (js ''ab''))
   \<and> length (js ''ab'') = 2"
  by code_simp

text \<open>
  C4, as the code has it: \<^verbatim>\<open>huffmanDecompress\<close> fails with \<open>MalformedPayloadError\<close>
  for every payload that lacks its packed bytes (\<^verbatim>\<open>encodedData\<close>) or its serialized
  tree (\<^verbatim>\<open>tree\<close>); in particular a payload without its packed bytes fails with it.
\<close>

theorem missing_fields_rejected:
  "encodedData p = None \<or> tree p = None \<longrightarrow>
     huffmanDecompress (Some p) = Inl MalformedPayloadError"
  by (auto simp: huffmanDecompress_def split: option.splits)

theorem missing_fields_rejected_witness:
  "encodedData no_bytes_payload = None
   \<and> huffmanDecompress (Some no_bytes_payload) = Inl MalformedPayloadError
   \<and> tree no_tree_payload = None
   \<and> huffmanDecompress (Some no_tree_payload) = Inl MalformedPayloadError"
  using missing_fields_rejected [of no_bytes_payload] missing_fields_rejected [of no_tree_payload]
  by (simp add: no_bytes_payload_def no_tree_payload_def ab_payload_def)

text \<open>
  C4 as stated fails for the padding-bit count and the domain flag: a payload of eight
  symbols that lacks \<^verbatim>\<open>paddingBits\<close> and \<^verbatim>\<open>isArrayData\<close>, and records the length 8,
  is decoded to its eight symbols.
\<close>

theorem padding_and_flag_not_required:
  "paddingBits unflagged_payload = None \<and> isArrayData unflagged_payload = None
   \<and> originalLength unflagged_payload = Some (length (js ''abaaaaaa''))
   \<and> huffmanDecompress (Some unflagged_payload) = Inr (Str (js ''abaaaaaa''))"
  by code_simp

end
